theory Spec2Isabelle
  imports Main "HOL-Library.Multiset" "HOL-Library.AList"
begin

section \<open>JavaScript values used by the passes\<close>

text \<open>
  The minifier is TypeScript.  A JavaScript string is a sequence of UTF-16 code units,
  modelled as the list of their codes, so that \<open>length\<close> is the source's \<open>.length\<close>.
  Identifier names are ASCII and are written as Isabelle strings.

  A JavaScript number is an IEEE 754 double.  The byte-cost arithmetic of the minifier
  starts from integers (occurrence counts and string lengths) and only adds, subtracts,
  multiplies and compares, so every value it computes is an integer-valued double,
  \<open>Infinity\<close>, \<open>-Infinity\<close> or \<open>NaN\<close>.  \<open>Num i\<close> is the double whose value is the
  integer \<open>i\<close>; the sign of a zero is not recorded, since the two zeros compare equal
  and nothing here divides.
\<close>

datatype jsnum = NaN | NegInfinity | PosInfinity | Num int

type_synonym jsstring = "nat list"

text \<open>
  The result of an arithmetic operation is its exact value rounded to the nearest double,
  ties to the even significand.  For an integer of \<open>n\<close> bits the 53-bit significand
  keeps the top 53 bits, so the last \<open>n - 53\<close> bits are rounded away; a rounded
  magnitude of \<open>2 ^ 1024\<close> or more overflows to an infinity.
\<close>

fun bit_length :: "nat \<Rightarrow> nat" where
  "bit_length n = (if n = 0 then 0 else Suc (bit_length (n div 2)))"

declare bit_length.simps [simp del]

definition js_round :: "int \<Rightarrow> jsnum" where
  "js_round x =
     (let m = nat \<bar>x\<bar>;
          e = bit_length m - 53;
          q = m div 2 ^ e;
          r = m mod 2 ^ e;
          q' = (if 2 * r > 2 ^ e \<or> (2 * r = 2 ^ e \<and> odd q) then q + 1 else q);
          y = q' * 2 ^ e
      in if y \<ge> 2 ^ 1024 then (if x < 0 then NegInfinity else PosInfinity)
         else Num (if x < 0 then - int y else int y))"

text \<open>The operators \<open>-x\<close>, \<open>x + y\<close>, \<open>x - y\<close> and \<open>x * y\<close> on these values.\<close>

fun js_negate :: "jsnum \<Rightarrow> jsnum" where
  "js_negate NaN = NaN"
| "js_negate NegInfinity = PosInfinity"
| "js_negate PosInfinity = NegInfinity"
| "js_negate (Num a) = Num (- a)"

fun js_add :: "jsnum \<Rightarrow> jsnum \<Rightarrow> jsnum" where
  "js_add (Num a) (Num b) = js_round (a + b)"
| "js_add NaN y = NaN"
| "js_add x NaN = NaN"
| "js_add PosInfinity NegInfinity = NaN"
| "js_add NegInfinity PosInfinity = NaN"
| "js_add PosInfinity y = PosInfinity"
| "js_add x PosInfinity = PosInfinity"
| "js_add NegInfinity y = NegInfinity"
| "js_add x NegInfinity = NegInfinity"

definition js_sub :: "jsnum \<Rightarrow> jsnum \<Rightarrow> jsnum" where
  "js_sub x y = js_add x (js_negate y)"

fun js_mul :: "jsnum \<Rightarrow> jsnum \<Rightarrow> jsnum" where
  "js_mul (Num a) (Num b) = js_round (a * b)"
| "js_mul NaN y = NaN"
| "js_mul x NaN = NaN"
| "js_mul (Num a) y = (if a = 0 then NaN else if a > 0 then y else js_negate y)"
| "js_mul x (Num b) = (if b = 0 then NaN else if b > 0 then x else js_negate x)"
| "js_mul PosInfinity y = y"
| "js_mul NegInfinity y = js_negate y"

text \<open>\<open>x > k\<close>, \<open>x <= k\<close>, \<open>x < k\<close> and \<open>x - k\<close> for a number \<open>x\<close> and a finite
  integer \<open>k\<close>; a comparison with \<open>NaN\<close> is false.\<close>

fun js_gt :: "jsnum \<Rightarrow> int \<Rightarrow> bool" where
  "js_gt (Num a) k = (a > k)"
| "js_gt PosInfinity k = True"
| "js_gt NegInfinity k = False"
| "js_gt NaN k = False"

fun js_le :: "jsnum \<Rightarrow> int \<Rightarrow> bool" where
  "js_le (Num a) k = (a \<le> k)"
| "js_le PosInfinity k = False"
| "js_le NegInfinity k = True"
| "js_le NaN k = False"

fun js_lt :: "jsnum \<Rightarrow> int \<Rightarrow> bool" where
  "js_lt (Num a) k = (a < k)"
| "js_lt PosInfinity k = False"
| "js_lt NegInfinity k = True"
| "js_lt NaN k = False"

definition js_minus :: "jsnum \<Rightarrow> int \<Rightarrow> jsnum" where
  "js_minus x k = js_sub x (Num k)"

text \<open>Up to \<open>2 ^ 53 = 9007199254740992\<close> in magnitude every integer is a double, and
  the operations are exact.\<close>

lemma bit_length_bound: "n < 2 ^ k \<Longrightarrow> bit_length n \<le> k"
proof (induction k arbitrary: n)
  case 0
  then show ?case by (simp add: bit_length.simps)
next
  case (Suc k)
  have "n div 2 < 2 ^ k" using Suc.prems by simp
  from Suc.IH [OF this] show ?case by (subst bit_length.simps) simp
qed

lemma bit_length_power: "bit_length (2 ^ k) = Suc k"
  by (induction k) (simp_all add: bit_length.simps)

lemma js_round_exact: "\<bar>x\<bar> \<le> 9007199254740992 \<Longrightarrow> js_round x = Num x"
proof -
  assume b: "\<bar>x\<bar> \<le> 9007199254740992"
  define m where "m = nat \<bar>x\<bar>"
  have m: "m \<le> 2 ^ 53" using b by (simp add: m_def)
  have small: "m < (2::nat) ^ 1024"
  proof -
    have "(2::nat) ^ 53 < 2 ^ 1024" by (rule power_strict_increasing) simp_all
    with m show ?thesis by simp
  qed
  have sg: "x < 0 \<Longrightarrow> - int m = x" "\<not> x < 0 \<Longrightarrow> int m = x" by (simp_all add: m_def)
  show ?thesis
  proof (cases "m = 2 ^ 53")
    case True
    have e: "bit_length m - 53 = 1" unfolding True bit_length_power by simp
    have "m div 2 ^ 1 * 2 ^ 1 = m" "m mod 2 ^ 1 = 0" unfolding True by simp_all
    then show ?thesis
      unfolding js_round_def m_def [symmetric] Let_def e using small sg by simp
  next
    case False
    with m have "m < 2 ^ 53" by simp
    then have e: "bit_length m - 53 = 0" using bit_length_bound [of m 53] by simp
    show ?thesis
      unfolding js_round_def m_def [symmetric] Let_def e using small sg by simp
  qed
qed

lemma js_add_exact [simp]:
  "- 9007199254740992 \<le> a + b \<Longrightarrow> a + b \<le> 9007199254740992 \<Longrightarrow>
   js_add (Num a) (Num b) = Num (a + b)"
  by (simp add: js_round_exact)

lemma js_mul_exact [simp]:
  "- 9007199254740992 \<le> a * b \<Longrightarrow> a * b \<le> 9007199254740992 \<Longrightarrow>
   js_mul (Num a) (Num b) = Num (a * b)"
  by (simp add: js_round_exact)

lemma js_sub_exact [simp]:
  "- 9007199254740992 \<le> a - b \<Longrightarrow> a - b \<le> 9007199254740992 \<Longrightarrow>
   js_sub (Num a) (Num b) = Num (a - b)"
  by (simp add: js_sub_def js_round_exact)

lemma js_minus_exact [simp]:
  "- 9007199254740992 \<le> a - k \<Longrightarrow> a - k \<le> 9007199254740992 \<Longrightarrow>
   js_minus (Num a) k = Num (a - k)"
  by (simp add: js_minus_def)

declare js_add.simps(1) [simp del] js_mul.simps(1) [simp del]

lemma bit_length_lower: "2 ^ k \<le> n \<Longrightarrow> k < bit_length n"
proof (induction k arbitrary: n)
  case 0
  then show ?case by (subst bit_length.simps) simp
next
  case (Suc k)
  have "2 ^ k \<le> n div 2" using Suc.prems by simp
  moreover have "n \<noteq> 0"
  proof
    assume "n = 0"
    with Suc.prems have "(2::nat) ^ Suc k \<le> 0" by simp
    then show False by simp
  qed
  ultimately show ?case using Suc.IH [of "n div 2"] by (subst bit_length.simps) simp
qed

lemma bit_length_eq: "2 ^ k \<le> n \<Longrightarrow> n < 2 ^ Suc k \<Longrightarrow> bit_length n = Suc k"
  using bit_length_lower [of k n] bit_length_bound [of n "Suc k"] by simp

text \<open>
  \<open>JSON.stringify(value).length\<close> for a string \<open>value\<close> is a built-in of the language.
  ECMAScript's QuoteJSONString writes the two quotes, two code units for each of
  backspace, tab, line feed, form feed, carriage return, the double quote and the
  backslash, six (\<open>\uXXXX\<close>) for every other code unit below 0x20 and for a surrogate
  that is not part of a pair, and the code unit itself otherwise.
\<close>

definition is_high_surrogate :: "nat \<Rightarrow> bool" where
  "is_high_surrogate c = (0xD800 \<le> c \<and> c \<le> 0xDBFF)"

definition is_low_surrogate :: "nat \<Rightarrow> bool" where
  "is_low_surrogate c = (0xDC00 \<le> c \<and> c \<le> 0xDFFF)"

definition json_unit_length :: "nat \<Rightarrow> nat" where
  "json_unit_length c =
     (if c \<in> {0x08, 0x09, 0x0A, 0x0C, 0x0D, 0x22, 0x5C} then 2
      else if c < 0x20 \<or> is_high_surrogate c \<or> is_low_surrogate c then 6
      else 1)"

fun json_units_length :: "jsstring \<Rightarrow> nat" where
  "json_units_length [] = 0"
| "json_units_length [c] = json_unit_length c"
| "json_units_length (c # d # cs) =
     (if is_high_surrogate c \<and> is_low_surrogate d then 2 + json_units_length cs
      else json_unit_length c + json_units_length (d # cs))"

definition JSON_stringify_length :: "jsstring \<Rightarrow> nat" where
  "JSON_stringify_length v = 2 + json_units_length v"

text \<open>An ASCII identifier or literal of the source as a JavaScript string.\<close>

definition js :: "string \<Rightarrow> jsstring" where
  "js s = map of_char s"

subsection \<open>Placeholder names\<close>

text \<open>\<open>String(i)\<close> for a natural number: its decimal digits.\<close>

function decimal :: "nat \<Rightarrow> string" where
  "decimal n = (if n < 10 then [char_of (48 + n)] else decimal (n div 10) @ [char_of (48 + n mod 10)])"
  by pat_completeness auto
termination
  by (relation "measure id") auto

declare decimal.simps [simp del]

lemma char_of_zero_digit: "char_of (48::nat) = CHR ''0''"
  by (simp add: char_of_eq_iff)

lemma char_of_one_digit: "char_of (49::nat) = CHR ''1''"
  by (simp add: char_of_eq_iff)

text \<open>The literal hoister names its placeholders \<open>__niu_literal_i__\<close>.\<close>

definition literalPlaceholder :: "nat \<Rightarrow> string" where
  "literalPlaceholder i = ''__niu_literal_'' @ decimal i @ ''__''"

text \<open>The global hoister names its placeholders \<open>__niu_global_i__\<close>.\<close>

definition globalPlaceholder :: "nat \<Rightarrow> string" where
  "globalPlaceholder i = ''__niu_global_'' @ decimal i @ ''__''"


section \<open>The profit calculator\<close>

text \<open>\<open>getDeclarationCost(valueReprLength, identifierLength, isFirst)\<close>; the sums
  associate to the left, as \<open>+\<close> does.\<close>

definition getDeclarationCost :: "int \<Rightarrow> int \<Rightarrow> bool \<Rightarrow> jsnum" where
  "getDeclarationCost valueReprLength identifierLength isFirst =
     (if isFirst
      then js_add (js_add (js_add (Num 6) (Num identifierLength)) (Num 1)) (Num valueReprLength)
      else js_add (js_add (js_add (Num 1) (Num identifierLength)) (Num 1)) (Num valueReprLength))"

text \<open>\<open>calculateLiteralProfit(occurrences, literalReprLength, identifierLength, isFirst)\<close>.\<close>

definition calculateLiteralProfit :: "int \<Rightarrow> int \<Rightarrow> int \<Rightarrow> bool \<Rightarrow> jsnum" where
  "calculateLiteralProfit occurrences literalReprLength identifierLength isFirst =
     (let originalCost = js_mul (Num occurrences) (Num literalReprLength);
          declarationCost = getDeclarationCost literalReprLength identifierLength isFirst;
          referenceCost = js_mul (Num occurrences) (Num identifierLength);
          newCost = js_add declarationCost referenceCost
      in js_sub originalCost newCost)"

text \<open>\<open>calculateGlobalProfit\<close>: \<open>-Infinity\<close> below two occurrences.\<close>

definition calculateGlobalProfit :: "int \<Rightarrow> int \<Rightarrow> int \<Rightarrow> bool \<Rightarrow> jsnum" where
  "calculateGlobalProfit occurrences globalNameLength identifierLength isFirst =
     (if occurrences < 2 then NegInfinity
      else let originalCost = js_mul (Num occurrences) (Num globalNameLength);
               declarationCost = getDeclarationCost globalNameLength identifierLength isFirst;
               referenceCost = js_mul (Num occurrences) (Num identifierLength);
               newCost = js_add declarationCost referenceCost
           in js_sub originalCost newCost)"

text \<open>The per-occurrence gates \<open>isPropertyAccessProfitable\<close> and
  \<open>isObjectPropertyProfitable\<close>; \<open>propertyName.length\<close> is the number of code units,
  and \<open>length > 1 + id\<close> is \<open>1 + id < length\<close>.\<close>

definition isPropertyAccessProfitable :: "jsstring \<Rightarrow> int \<Rightarrow> bool" where
  "isPropertyAccessProfitable propertyName identifierLength =
     js_lt (js_add (Num 1) (Num identifierLength)) (int (length propertyName))"

definition isObjectPropertyProfitable :: "jsstring \<Rightarrow> int \<Rightarrow> bool" where
  "isObjectPropertyProfitable propertyName identifierLength =
     js_lt (js_add (Num 2) (Num identifierLength)) (int (length propertyName))"

record UsageCounts =
  literalCount :: int
  propertyAccessCount :: int
  objectPropertyCount :: int

record SelectiveProfit =
  profit :: jsnum
  hoistLiterals :: bool
  hoistPropertyAccess :: bool
  hoistObjectProperties :: bool

text \<open>\<open>calculateSelectiveStringProfit(usage, value, identifierLength, isFirst)\<close>, statement
  by statement.  \<open>originalCost\<close> starts at 0, and \<open>0 + x\<close> is \<open>x\<close>.\<close>

definition calculateSelectiveStringProfit ::
  "UsageCounts \<Rightarrow> jsstring \<Rightarrow> int \<Rightarrow> bool \<Rightarrow> SelectiveProfit" where
  "calculateSelectiveStringProfit usage v identifierLength isFirst =
     (let stringReprLength = int (JSON_stringify_length v);
          propertyAccessProfitablePerOccurrence = isPropertyAccessProfitable v identifierLength;
          objectPropertyProfitablePerOccurrence = isObjectPropertyProfitable v identifierLength;
          effectiveLiteralCount = literalCount usage;
          effectivePropertyAccessCount =
            (if propertyAccessProfitablePerOccurrence then propertyAccessCount usage else 0);
          effectiveObjectPropertyCount =
            (if objectPropertyProfitablePerOccurrence then objectPropertyCount usage else 0);
          effectiveTotal =
            js_add (js_add (Num effectiveLiteralCount) (Num effectivePropertyAccessCount))
              (Num effectiveObjectPropertyCount)
      in if js_lt effectiveTotal 2 then
           \<lparr>profit = NegInfinity, hoistLiterals = False, hoistPropertyAccess = False,
            hoistObjectProperties = False\<rparr>
         else
           let originalCost0 = js_mul (Num effectiveLiteralCount) (Num stringReprLength);
               originalCost1 =
                 (if propertyAccessProfitablePerOccurrence
                  then js_add originalCost0
                         (js_mul (Num (propertyAccessCount usage))
                            (js_add (Num 1) (Num (int (length v)))))
                  else originalCost0);
               originalCost =
                 (if objectPropertyProfitablePerOccurrence
                  then js_add originalCost1
                         (js_mul (Num (objectPropertyCount usage)) (Num (int (length v))))
                  else originalCost1);
               declarationCost = getDeclarationCost stringReprLength identifierLength isFirst;
               newCost0 = js_add declarationCost
                            (js_mul (Num effectiveLiteralCount) (Num identifierLength));
               newCost1 =
                 (if propertyAccessProfitablePerOccurrence
                  then js_add newCost0
                         (js_mul (Num (propertyAccessCount usage))
                            (js_add (Num 2) (Num identifierLength)))
                  else newCost0);
               newCost =
                 (if objectPropertyProfitablePerOccurrence
                  then js_add newCost1
                         (js_mul (Num (objectPropertyCount usage))
                            (js_add (Num 2) (Num identifierLength)))
                  else newCost1)
           in \<lparr>profit = js_sub originalCost newCost,
               hoistLiterals = (effectiveLiteralCount > 0),
               hoistPropertyAccess =
                 (propertyAccessProfitablePerOccurrence \<and> propertyAccessCount usage > 0),
               hoistObjectProperties =
                 (objectPropertyProfitablePerOccurrence \<and> objectPropertyCount usage > 0)\<rparr>)"


section \<open>Properties of the profit calculator\<close>

text \<open>Products and declaration costs of non-negative values that stay within \<open>2 ^ 53\<close>,
  and the length of a quoted string, which is at least that of the string.\<close>

lemma js_mul_nonneg:
  "0 \<le> a \<Longrightarrow> 0 \<le> b \<Longrightarrow> a * b \<le> 9007199254740992 \<Longrightarrow> js_mul (Num a) (Num b) = Num (a * b)"
proof -
  assume "0 \<le> a" "0 \<le> b" and le: "a * b \<le> 9007199254740992"
  then have "0 \<le> a * b" by simp
  then have "- 9007199254740992 \<le> a * b" by linarith
  then show ?thesis using le by (rule js_mul_exact)
qed

lemma json_units_length_ge: "length v \<le> json_units_length v"
  by (induction v rule: json_units_length.induct) (auto simp: json_unit_length_def)

lemma getDeclarationCost_exact:
  assumes "0 \<le> R" and "0 \<le> ident"
    and "(if isFirst then 6 + ident + 1 + R else 1 + ident + 1 + R) \<le> 9007199254740992"
  shows "getDeclarationCost R ident isFirst =
           Num (if isFirst then 6 + ident + 1 + R else 1 + ident + 1 + R)"
  using assms by (cases isFirst) (simp_all add: getDeclarationCost_def)

lemma count_le_product: "0 \<le> (c::int) \<Longrightarrow> 1 \<le> k \<Longrightarrow> c \<le> c * k"
  using mult_left_mono [of 1 k c] by simp

text \<open>The rounding of some integers above \<open>2 ^ 53\<close>, where only the even integers
  are doubles.\<close>

lemma js_round_above:
  "js_round 9007199254741000 = Num 9007199254741000"
  "js_round 9007199254740998 = Num 9007199254740998"
  "js_round 9007199254740999 = Num 9007199254741000"
  "js_round 9007199254741003 = Num 9007199254741004"
proof -
  have "bit_length 9007199254741000 = Suc 53" by (rule bit_length_eq) simp_all
  then show "js_round 9007199254741000 = Num 9007199254741000"
    by (simp add: js_round_def Let_def)
  have "bit_length 9007199254740998 = Suc 53" by (rule bit_length_eq) simp_all
  then show "js_round 9007199254740998 = Num 9007199254740998"
    by (simp add: js_round_def Let_def)
  have "bit_length 9007199254740999 = Suc 53" by (rule bit_length_eq) simp_all
  then show "js_round 9007199254740999 = Num 9007199254741000"
    by (simp add: js_round_def Let_def)
  have "bit_length 9007199254741003 = Suc 53" by (rule bit_length_eq) simp_all
  then show "js_round 9007199254741003 = Num 9007199254741004"
    by (simp add: js_round_def Let_def)
qed

lemma js_round_even:
  "js_round 27021597764222976 = Num 27021597764222976"
  "js_round 18014398509481972 = Num 18014398509481972"
proof -
  have "bit_length 27021597764222976 = Suc 54" by (rule bit_length_eq) simp_all
  then show "js_round 27021597764222976 = Num 27021597764222976"
    by (simp add: js_round_def Let_def)
  have "bit_length 18014398509481972 = Suc 53" by (rule bit_length_eq) simp_all
  then show "js_round 18014398509481972 = Num 18014398509481972"
    by (simp add: js_round_def Let_def)
qed

text \<open>
  Claim C9, as amended.  For all integers \<open>R \<ge> 0\<close>, \<open>id \<ge> 1\<close> and \<open>n \<ge> 0\<close> such that
  \<open>n * R\<close> and \<open>6 + id + 1 + R + n * id\<close> are at most \<open>2 ^ 53\<close>, the declaration cost is
  \<open>6 + id + 1 + R\<close> for the first hoisted declarator and \<open>1 + id + 1 + R\<close> for every other
  one, and the literal hoist profit is \<open>n * R - D(R, id, F) - n * id\<close>, where \<open>D\<close> is that
  declaration cost.
\<close>

theorem declaration_cost_and_literal_profit:
  assumes "0 \<le> R" and "1 \<le> ident" and "0 \<le> n"
    and "n * R \<le> 9007199254740992"
    and "6 + ident + 1 + R + n * ident \<le> 9007199254740992"
  shows "getDeclarationCost R ident True = Num (6 + ident + 1 + R) \<and>
         getDeclarationCost R ident False = Num (1 + ident + 1 + R) \<and>
         calculateLiteralProfit n R ident F =
           Num (n * R - (if F then 6 + ident + 1 + R else 1 + ident + 1 + R) - n * ident)"
proof -
  define original where "original = n * R"
  define reference where "reference = n * ident"
  have p: "0 \<le> original" "0 \<le> reference"
    using assms by (simp_all add: original_def reference_def)
  have b: "original \<le> 9007199254740992" "6 + ident + 1 + R + reference \<le> 9007199254740992"
    using assms by (simp_all add: original_def reference_def)
  have d: "getDeclarationCost R ident True = Num (6 + ident + 1 + R)"
    "getDeclarationCost R ident False = Num (1 + ident + 1 + R)"
    using assms(1,2) p b by (simp_all add: getDeclarationCost_def)
  have m: "js_mul (Num n) (Num R) = Num original" "js_mul (Num n) (Num ident) = Num reference"
    using assms(1,2) p b by (simp_all add: original_def reference_def)
  have "calculateLiteralProfit n R ident F =
      Num (original - (if F then 6 + ident + 1 + R else 1 + ident + 1 + R) - reference)"
    unfolding calculateLiteralProfit_def Let_def m
    using assms(1,2) p b by (cases F) (simp_all add: d)
  with d show ?thesis by (simp add: original_def reference_def)
qed

text \<open>The source's own example: \<open>"hello"\<close> (seven bytes quoted) used five times with a
  one-character identifier costs 15 bytes to declare first and saves 15 bytes.\<close>

theorem declaration_cost_and_literal_profit_witness:
  "getDeclarationCost 7 1 True = Num 15 \<and> getDeclarationCost 7 1 False = Num 10 \<and>
   calculateLiteralProfit 5 7 1 True = Num 15"
  using declaration_cost_and_literal_profit [of 7 1 5 True] by simp

text \<open>
  For all integers the claim fails, because each sum is rounded to a double: with
  \<open>R = 0\<close> and \<open>id = 2 ^ 53\<close> the first declarator costs 9007199254741000 and not
  \<open>6 + id + 1 + R = 9007199254740999\<close>, and \<open>2 ^ 53\<close> occurrences of a three-byte literal
  give the profit 18014398509481972, one less than \<open>n * R - D - n * id\<close>.
\<close>

theorem declaration_cost_beyond_2_53_counterexample:
  "getDeclarationCost 0 9007199254740992 True = Num 9007199254741000 \<and>
   6 + 9007199254740992 + 1 + 0 = (9007199254740999 :: int) \<and>
   calculateLiteralProfit 9007199254740992 3 1 True = Num 18014398509481972 \<and>
   9007199254740992 * 3 - (6 + 1 + 1 + 3) - 9007199254740992 * 1 = (18014398509481973 :: int)"
  by (simp add: getDeclarationCost_def calculateLiteralProfit_def Let_def js_add.simps(1)
      js_mul.simps(1) js_sub_def js_round_above js_round_even js_round_exact)




section \<open>The global hoister\<close>

text \<open>
  \<open>hoistGlobals\<close> distinguishes only Identifier nodes, by their parent: the object of a
  member expression, the argument of a \<open>typeof\<close>, or anything else.  The AST keeps these
  node types, string literals and the variable declaration the pass creates; every other
  node is \<open>Other\<close> with its type and its children in traversal order.  A program is the
  list of its statements.  The names of the free globals (\<open>Object.keys(scope.globals)\<close> of
  the program scope) are computed by Babel and are an input.
\<close>

datatype Node =
    Identifier string
  | StringLiteral jsstring
  | MemberExpression Node Node bool
  | UnaryExpression string Node
  | VariableDeclaration string "Node list"
  | VariableDeclarator Node "Node option"
  | Other string "Node list"

definition RESERVED_KEYWORDS :: "string list" where
  "RESERVED_KEYWORDS =
     [''arguments'', ''this'', ''super'', ''undefined'', ''NaN'', ''Infinity'', ''null'', ''true'',
      ''false'']"

text \<open>
  The single traversal.  \<open>Slot\<close> is what \<open>isMemberExpressionObject\<close> and
  \<open>isTypeofArgument\<close> read from \<open>path.parent\<close>; a path is the number of Identifier nodes
  visited before it, so that it names one node of the AST.
\<close>

datatype Slot = MemberObject | TypeofArgument | Elsewhere

record Collected =
  visited :: nat
  typeofGlobals :: "string list"
  pendingRefs :: "(string \<times> nat) list"

fun visit :: "Slot \<Rightarrow> Node \<Rightarrow> Collected \<Rightarrow> Collected"
  and visitAll :: "Node list \<Rightarrow> Collected \<Rightarrow> Collected" where
  "visit slot (Identifier name) st =
     st\<lparr>visited := visited st + 1,
        typeofGlobals :=
          (if slot = TypeofArgument then List.insert name (typeofGlobals st) else typeofGlobals st),
        pendingRefs :=
          (if slot = MemberObject \<and> name \<notin> set RESERVED_KEYWORDS
           then pendingRefs st @ [(name, visited st)] else pendingRefs st)\<rparr>"
| "visit slot (StringLiteral v) st = st"
| "visit slot (MemberExpression object property computed) st =
     visit Elsewhere property (visit MemberObject object st)"
| "visit slot (UnaryExpression operator argument) st =
     visit (if operator = ''typeof'' then TypeofArgument else Elsewhere) argument st"
| "visit slot (VariableDeclaration kind declarations) st = visitAll declarations st"
| "visit slot (VariableDeclarator ident None) st = visit Elsewhere ident st"
| "visit slot (VariableDeclarator ident (Some init)) st =
     visit Elsewhere init (visit Elsewhere ident st)"
| "visit slot (Other nodeType children) st = visitAll children st"
| "visitAll [] st = st"
| "visitAll (child # children) st = visitAll children (visit Elsewhere child st)"

text \<open>
  \<open>globalUsage\<close> is a \<open>Map\<close> from a name to its \<open>GlobalInfo\<close>, in insertion order;
  \<open>addPendingRef\<close> is the body of the loop over \<open>pendingRefs\<close> and \<open>decideGlobal\<close> the
  body of the loop that computes the profit of each global.
\<close>

type_synonym global_usage = "(string \<times> nat list) list"

definition addPendingRef ::
  "string list \<Rightarrow> string list \<Rightarrow> string \<times> nat \<Rightarrow> global_usage \<Rightarrow> global_usage" where
  "addPendingRef trueGlobals typeofNames ref globalUsage =
     (let (name, path) = ref
      in if name \<notin> set trueGlobals \<or> name \<in> set typeofNames then globalUsage
         else case map_of globalUsage name of
                None \<Rightarrow> AList.update name [path] globalUsage
              | Some paths \<Rightarrow> AList.update name (paths @ [path]) globalUsage)"

record GlobalDecision =
  decisionName :: string
  decisionReferences :: "nat list"
  globalProfit :: jsnum

definition decideGlobal :: "string \<times> nat list \<Rightarrow> GlobalDecision list \<Rightarrow> GlobalDecision list" where
  "decideGlobal info decisions =
     (let (name, paths) = info
      in if length paths < 2 then decisions
         else let p = calculateGlobalProfit (int (length paths)) (int (length name)) 1
                        (length decisions = 0)
              in if js_gt p 0
                 then decisions @ [\<lparr>decisionName = name, decisionReferences = paths,
                                     globalProfit = p\<rparr>]
                 else decisions)"

record HoistedGlobal =
  hoistedName :: string
  globalName :: string
  globalOccurrences :: int

text \<open>\<open>refPath.replaceWith(t.identifier(placeholderName))\<close> for the collected paths: the
  Identifier visited at a replaced position becomes the placeholder.\<close>

fun replaceRefs :: "(nat \<times> string) list \<Rightarrow> Node \<Rightarrow> nat \<Rightarrow> Node \<times> nat"
  and replaceRefsAll :: "(nat \<times> string) list \<Rightarrow> Node list \<Rightarrow> nat \<Rightarrow> Node list \<times> nat" where
  "replaceRefs r (Identifier name) k =
     (case map_of r k of Some placeholderName \<Rightarrow> Identifier placeholderName
                       | None \<Rightarrow> Identifier name, k + 1)"
| "replaceRefs r (StringLiteral v) k = (StringLiteral v, k)"
| "replaceRefs r (MemberExpression object property computed) k =
     (let (object', k1) = replaceRefs r object k;
          (property', k2) = replaceRefs r property k1
      in (MemberExpression object' property' computed, k2))"
| "replaceRefs r (UnaryExpression operator argument) k =
     (let (argument', k1) = replaceRefs r argument k in (UnaryExpression operator argument', k1))"
| "replaceRefs r (VariableDeclaration kind declarations) k =
     (let (declarations', k1) = replaceRefsAll r declarations k
      in (VariableDeclaration kind declarations', k1))"
| "replaceRefs r (VariableDeclarator ident None) k =
     (let (ident', k1) = replaceRefs r ident k in (VariableDeclarator ident' None, k1))"
| "replaceRefs r (VariableDeclarator ident (Some init)) k =
     (let (ident', k1) = replaceRefs r ident k;
          (init', k2) = replaceRefs r init k1
      in (VariableDeclarator ident' (Some init'), k2))"
| "replaceRefs r (Other nodeType children) k =
     (let (children', k1) = replaceRefsAll r children k in (Other nodeType children', k1))"
| "replaceRefsAll r [] k = ([], k)"
| "replaceRefsAll r (child # children) k =
     (let (child', k1) = replaceRefs r child k;
          (children', k2) = replaceRefsAll r children k1
      in (child' # children', k2))"

record HoistGlobalsResult =
  resultAst :: "Node list"
  hoistedGlobals :: "HoistedGlobal list"

definition hoistGlobals :: "string list \<Rightarrow> Node list \<Rightarrow> HoistGlobalsResult" where
  "hoistGlobals globals program =
     (let trueGlobals = globals;
          st = visitAll program \<lparr>visited = 0, typeofGlobals = [], pendingRefs = []\<rparr>
      in if length trueGlobals = 0 then \<lparr>resultAst = program, hoistedGlobals = []\<rparr>
         else
           let globalUsage = fold (addPendingRef trueGlobals (typeofGlobals st)) (pendingRefs st) [];
               decisions = sort_key (\<lambda>d. - int (length (decisionReferences d)))
                             (fold decideGlobal globalUsage []);
               hoisted = map (\<lambda>(i, decision).
                                \<lparr>hoistedName = globalPlaceholder i, globalName = decisionName decision,
                                 globalOccurrences = int (length (decisionReferences decision))\<rparr>)
                           (enumerate 0 decisions);
               replacements = concat (map (\<lambda>(i, decision).
                                map (\<lambda>refPath. (refPath, globalPlaceholder i))
                                  (decisionReferences decision))
                             (enumerate 0 decisions));
               replaced = fst (replaceRefsAll replacements program 0)
           in if length hoisted > 0
              then \<lparr>resultAst =
                      VariableDeclaration ''const''
                        (map (\<lambda>h. VariableDeclarator (Identifier (hoistedName h))
                                     (Some (Identifier (globalName h)))) hoisted)
                      # replaced,
                    hoistedGlobals = hoisted\<rparr>
              else \<lparr>resultAst = replaced, hoistedGlobals = hoisted\<rparr>)"

text \<open>
  What the claims speak of, read off the AST directly: the names that are the operand of a
  \<open>typeof\<close> somewhere, and how often a name is the object of a member expression, of any
  kind or of the dot kind only.
\<close>

fun identifierName :: "Node \<Rightarrow> string set" where
  "identifierName (Identifier name) = {name}"
| "identifierName other = {}"

fun typeofOperands :: "Node \<Rightarrow> string set"
  and typeofOperandsAll :: "Node list \<Rightarrow> string set" where
  "typeofOperands (Identifier name) = {}"
| "typeofOperands (StringLiteral v) = {}"
| "typeofOperands (MemberExpression object property computed) =
     typeofOperands object \<union> typeofOperands property"
| "typeofOperands (UnaryExpression operator argument) =
     (if operator = ''typeof'' then identifierName argument else {}) \<union> typeofOperands argument"
| "typeofOperands (VariableDeclaration kind declarations) = typeofOperandsAll declarations"
| "typeofOperands (VariableDeclarator ident None) = typeofOperands ident"
| "typeofOperands (VariableDeclarator ident (Some init)) =
     typeofOperands ident \<union> typeofOperands init"
| "typeofOperands (Other nodeType children) = typeofOperandsAll children"
| "typeofOperandsAll [] = {}"
| "typeofOperandsAll (child # children) = typeofOperands child \<union> typeofOperandsAll children"

fun memberObjectUses :: "string \<Rightarrow> Node \<Rightarrow> nat"
  and memberObjectUsesAll :: "string \<Rightarrow> Node list \<Rightarrow> nat" where
  "memberObjectUses g (Identifier name) = 0"
| "memberObjectUses g (StringLiteral v) = 0"
| "memberObjectUses g (MemberExpression object property computed) =
     (if object = Identifier g then 1 else 0) + memberObjectUses g object
     + memberObjectUses g property"
| "memberObjectUses g (UnaryExpression operator argument) = memberObjectUses g argument"
| "memberObjectUses g (VariableDeclaration kind declarations) = memberObjectUsesAll g declarations"
| "memberObjectUses g (VariableDeclarator ident None) = memberObjectUses g ident"
| "memberObjectUses g (VariableDeclarator ident (Some init)) =
     memberObjectUses g ident + memberObjectUses g init"
| "memberObjectUses g (Other nodeType children) = memberObjectUsesAll g children"
| "memberObjectUsesAll g [] = 0"
| "memberObjectUsesAll g (child # children) =
     memberObjectUses g child + memberObjectUsesAll g children"

fun dotObjectUses :: "string \<Rightarrow> Node \<Rightarrow> nat"
  and dotObjectUsesAll :: "string \<Rightarrow> Node list \<Rightarrow> nat" where
  "dotObjectUses g (Identifier name) = 0"
| "dotObjectUses g (StringLiteral v) = 0"
| "dotObjectUses g (MemberExpression object property computed) =
     (if object = Identifier g \<and> \<not> computed then 1 else 0) + dotObjectUses g object
     + dotObjectUses g property"
| "dotObjectUses g (UnaryExpression operator argument) = dotObjectUses g argument"
| "dotObjectUses g (VariableDeclaration kind declarations) = dotObjectUsesAll g declarations"
| "dotObjectUses g (VariableDeclarator ident None) = dotObjectUses g ident"
| "dotObjectUses g (VariableDeclarator ident (Some init)) =
     dotObjectUses g ident + dotObjectUses g init"
| "dotObjectUses g (Other nodeType children) = dotObjectUsesAll g children"
| "dotObjectUsesAll g [] = 0"
| "dotObjectUsesAll g (child # children) = dotObjectUses g child + dotObjectUsesAll g children"

subsection \<open>Example programs\<close>

definition statement :: "Node \<Rightarrow> Node" where
  "statement e = Other ''ExpressionStatement'' [e]"

definition computedProgram :: "Node list" where
  "computedProgram =
     [statement (MemberExpression (Identifier ''localStorage'') (StringLiteral (js ''a'')) True),
      statement (MemberExpression (Identifier ''localStorage'') (StringLiteral (js ''b'')) True)]"

definition dotProgram :: "Node list" where
  "dotProgram =
     [statement (MemberExpression (Identifier ''localStorage'') (Identifier ''a'') False),
      statement (MemberExpression (Identifier ''localStorage'') (Identifier ''b'') False)]"

definition typeofProgram :: "Node list" where
  "typeofProgram =
     [statement (UnaryExpression ''typeof'' (Identifier ''localStorage'')),
      statement (MemberExpression (Identifier ''localStorage'') (Identifier ''a'') False),
      statement (MemberExpression (Identifier ''localStorage'') (Identifier ''b'') False)]"

subsection \<open>Which globals are hoisted\<close>

definition pathsOf :: "string \<Rightarrow> (string \<times> nat) list \<Rightarrow> nat list" where
  "pathsOf g refs = map snd (filter (\<lambda>r. fst r = g) refs)"

lemma pathsOf_simps [simp]:
  "pathsOf g [] = []"
  "pathsOf g (refs @ refs') = pathsOf g refs @ pathsOf g refs'"
  "pathsOf g ((name, path) # refs) = (if name = g then path # pathsOf g refs else pathsOf g refs)"
  by (simp_all add: pathsOf_def)

lemma visit_typeof:
  "set (typeofGlobals (visit slot n st)) =
     set (typeofGlobals st) \<union> typeofOperands n
     \<union> (if slot = TypeofArgument then identifierName n else {})"
  "set (typeofGlobals (visitAll ns st)) = set (typeofGlobals st) \<union> typeofOperandsAll ns"
  by (induction slot n st and ns st rule: visit_visitAll.induct) auto

lemma visit_pending:
  "length (pathsOf g (pendingRefs (visit slot n st))) =
     length (pathsOf g (pendingRefs st))
     + (if g \<in> set RESERVED_KEYWORDS then 0
        else memberObjectUses g n + (if slot = MemberObject \<and> n = Identifier g then 1 else 0))"
  "length (pathsOf g (pendingRefs (visitAll ns st))) =
     length (pathsOf g (pendingRefs st))
     + (if g \<in> set RESERVED_KEYWORDS then 0 else memberObjectUsesAll g ns)"
  by (induction slot n st and ns st rule: visit_visitAll.induct) auto

lemma addPendingRef_map_of:
  "map_of (fold (addPendingRef T Ty) refs gu) g =
     (if g \<in> set T \<and> g \<notin> set Ty \<and> pathsOf g refs \<noteq> []
      then Some ((case map_of gu g of None \<Rightarrow> [] | Some r \<Rightarrow> r) @ pathsOf g refs)
      else map_of gu g)"
proof (induction refs arbitrary: gu)
  case Nil
  then show ?case by simp
next
  case (Cons ref refs)
  obtain name path where ref: "ref = (name, path)" by (cases ref)
  have step: "map_of (addPendingRef T Ty ref gu) g =
      (if name = g \<and> g \<in> set T \<and> g \<notin> set Ty
       then Some ((case map_of gu g of None \<Rightarrow> [] | Some r \<Rightarrow> r) @ [path])
       else map_of gu g)"
    by (auto simp: ref addPendingRef_def update_conv' split: option.splits)
  have "map_of (fold (addPendingRef T Ty) (ref # refs) gu) g =
        map_of (fold (addPendingRef T Ty) refs (addPendingRef T Ty ref gu)) g" by simp
  also have "\<dots> = (if g \<in> set T \<and> g \<notin> set Ty \<and> pathsOf g refs \<noteq> []
      then Some ((case map_of (addPendingRef T Ty ref gu) g of None \<Rightarrow> [] | Some r \<Rightarrow> r)
                 @ pathsOf g refs)
      else map_of (addPendingRef T Ty ref gu) g)"
    by (rule Cons.IH)
  also have "\<dots> = (if g \<in> set T \<and> g \<notin> set Ty \<and> pathsOf g (ref # refs) \<noteq> []
      then Some ((case map_of gu g of None \<Rightarrow> [] | Some r \<Rightarrow> r) @ pathsOf g (ref # refs))
      else map_of gu g)"
    unfolding step by (auto simp: ref split: option.splits)
  finally show ?case .
qed

lemma addPendingRef_distinct:
  "distinct (map fst gu) \<Longrightarrow> distinct (map fst (fold (addPendingRef T Ty) refs gu))"
proof (induction refs arbitrary: gu)
  case Nil
  then show ?case by simp
next
  case (Cons ref refs)
  obtain name path where ref: "ref = (name, path)" by (cases ref)
  have "distinct (map fst (addPendingRef T Ty ref gu))"
    using Cons.prems by (simp add: ref addPendingRef_def distinct_update split: option.splits)
  then show ?case using Cons.IH by simp
qed

lemma decideGlobal_from_usage:
  "d \<in> set (fold decideGlobal gu ds) \<Longrightarrow>
   d \<in> set ds \<or> ((decisionName d, decisionReferences d) \<in> set gu \<and>
                 2 \<le> length (decisionReferences d) \<and> js_gt (globalProfit d) 0)"
proof (induction gu arbitrary: ds)
  case Nil
  then show ?case by simp
next
  case (Cons e gu)
  obtain name paths where e: "e = (name, paths)" by (cases e)
  from Cons.prems have "d \<in> set (fold decideGlobal gu (decideGlobal e ds))" by simp
  from Cons.IH [OF this] show ?case
    by (auto simp: e decideGlobal_def Let_def split: if_splits)
qed

text \<open>
  Claim C1, as amended.  \<open>hoistGlobals\<close> hoists a global name \<open>g\<close> only when \<open>g\<close> is
  recorded in the program scope's globals map, \<open>g\<close> never appears anywhere in the program as
  the operand of a \<open>typeof\<close>, \<open>g\<close> is outside the contextual-keyword list, and \<open>g\<close>
  occurs at least twice as the object of a member expression, computed accesses
  \<open>g[...]\<close> counted like dot accesses; the occurrences recorded are exactly those uses.
  In particular no identifier that is ever a \<open>typeof\<close> argument is hoisted.
\<close>

theorem hoisted_global_conditions:
  assumes "h \<in> set (hoistedGlobals (hoistGlobals globals program))"
  shows "globalName h \<in> set globals \<and>
         globalName h \<notin> typeofOperandsAll program \<and>
         globalName h \<notin> set RESERVED_KEYWORDS \<and>
         2 \<le> memberObjectUsesAll (globalName h) program \<and>
         globalOccurrences h = int (memberObjectUsesAll (globalName h) program)"
proof -
  define st where "st = visitAll program \<lparr>visited = 0, typeofGlobals = [], pendingRefs = []\<rparr>"
  define gu where "gu = fold (addPendingRef globals (typeofGlobals st)) (pendingRefs st) []"
  define decisions where
    "decisions = sort_key (\<lambda>d. - int (length (decisionReferences d))) (fold decideGlobal gu [])"
  define g where "g = globalName h"
  have ne: "globals \<noteq> []"
    using assms by (auto simp: hoistGlobals_def Let_def)
  then have hs: "hoistedGlobals (hoistGlobals globals program) =
      map (\<lambda>(i, decision).
             \<lparr>hoistedName = globalPlaceholder i, globalName = decisionName decision,
              globalOccurrences = int (length (decisionReferences decision))\<rparr>)
          (enumerate 0 decisions)"
    by (simp add: hoistGlobals_def Let_def st_def gu_def decisions_def)
  from assms obtain i d where id: "(i, d) \<in> set (enumerate 0 decisions)"
      and h: "h = \<lparr>hoistedName = globalPlaceholder i, globalName = decisionName d,
                   globalOccurrences = int (length (decisionReferences d))\<rparr>"
    unfolding hs by auto
  from id have "d \<in> set decisions" by (auto simp: in_set_enumerate_eq)
  then have "d \<in> set (fold decideGlobal gu [])" by (simp add: decisions_def)
  from decideGlobal_from_usage [OF this]
  have mem: "(decisionName d, decisionReferences d) \<in> set gu"
    and two: "2 \<le> length (decisionReferences d)" by simp_all
  have "distinct (map fst gu)" unfolding gu_def by (rule addPendingRef_distinct) simp
  with mem have mo: "map_of gu (decisionName d) = Some (decisionReferences d)" by simp
  have gd: "g = decisionName d" by (simp add: g_def h)
  have char: "map_of gu g =
      (if g \<in> set globals \<and> g \<notin> set (typeofGlobals st) \<and> pathsOf g (pendingRefs st) \<noteq> []
       then Some (pathsOf g (pendingRefs st)) else None)"
    unfolding gu_def addPendingRef_map_of by simp
  from mo char have ok: "g \<in> set globals" "g \<notin> set (typeofGlobals st)"
      "pathsOf g (pendingRefs st) \<noteq> []"
      and refs: "decisionReferences d = pathsOf g (pendingRefs st)"
    unfolding gd by (auto split: if_splits)
  have ty: "set (typeofGlobals st) = typeofOperandsAll program"
    unfolding st_def visit_typeof by simp
  have cnt: "length (pathsOf g (pendingRefs st)) =
      (if g \<in> set RESERVED_KEYWORDS then 0 else memberObjectUsesAll g program)"
    unfolding st_def visit_pending by simp
  from ok(3) cnt have nr: "g \<notin> set RESERVED_KEYWORDS" by (auto split: if_splits)
  with cnt have len: "length (decisionReferences d) = memberObjectUsesAll g program"
    by (simp add: refs)
  have occ: "globalOccurrences h = int (length (decisionReferences d))" by (simp add: h)
  show ?thesis
    unfolding g_def [symmetric] using ok(1,2) ty nr two len occ by simp
qed

lemmas hoist_defs = hoistGlobals_def Let_def addPendingRef_def decideGlobal_def
  calculateGlobalProfit_def getDeclarationCost_def RESERVED_KEYWORDS_def statement_def
  enumerate_eq_zip globalPlaceholder_def decimal.simps

text \<open>
  The claim as stated fails: \<open>localStorage["a"];localStorage["b"]\<close> has no dot access at
  all, and \<open>localStorage\<close> is hoisted.
\<close>

theorem computed_access_counterexample:
  "map globalName (hoistedGlobals (hoistGlobals [''localStorage''] computedProgram))
     = [''localStorage''] \<and>
   dotObjectUsesAll ''localStorage'' computedProgram = 0"
  by (simp add: hoist_defs computedProgram_def)

text \<open>\<open>localStorage.a;localStorage.b\<close> hoists \<open>localStorage\<close>, used twice as a member
  object and never under \<open>typeof\<close>; with \<open>typeof localStorage\<close> added, nothing is
  hoisted.\<close>

theorem hoisted_global_witness:
  "map globalName (hoistedGlobals (hoistGlobals [''localStorage''] dotProgram)) = [''localStorage''] \<and>
   ''localStorage'' \<notin> typeofOperandsAll dotProgram \<and>
   memberObjectUsesAll ''localStorage'' dotProgram = 2 \<and>
   hoistedGlobals (hoistGlobals [''localStorage''] typeofProgram) = []"
proof -
  let ?h = "\<lparr>hoistedName = ''__niu_global_0__'', globalName = ''localStorage'',
             globalOccurrences = 2\<rparr>"
  have hs: "hoistedGlobals (hoistGlobals [''localStorage''] dotProgram) = [?h]"
    by (simp add: hoist_defs dotProgram_def char_of_zero_digit)
  then have "?h \<in> set (hoistedGlobals (hoistGlobals [''localStorage''] dotProgram))" by simp
  from hoisted_global_conditions [OF this]
  have a: "''localStorage'' \<notin> typeofOperandsAll dotProgram"
    and b: "2 = int (memberObjectUsesAll ''localStorage'' dotProgram)" by simp_all
  have c: "hoistedGlobals (hoistGlobals [''localStorage''] typeofProgram) = []"
    by (simp add: hoist_defs typeofProgram_def)
  from hs a b c show ?thesis by simp
qed


section \<open>The duplicate-literal hoister\<close>

subsection \<open>Decisions for strings\<close>

text \<open>
  The collection walk of \<open>hoistDuplicateLiterals\<close> fills, per string value, the seven
  node lists of \<open>StringUsageCollected\<close>; a node path is identified by a number.  The
  decision phase below reads only these lists, in the insertion order of the \<open>stringUsage\<close>
  map.  The regrouped node lists that a decision carries in its \<open>usage\<close> field are read
  by no later statement and are left out of \<open>SelectiveStringHoistDecision\<close>.
\<close>

record StringUsageCollected =
  literalNodes :: "nat list"
  dotAccessNodes :: "nat list"
  bracketAccessNodes :: "nat list"
  identifierKeyNodes :: "nat list"
  stringKeyNodes :: "nat list"
  classMethodNodes :: "nat list"
  classPropertyNodes :: "nat list"

record StringCandidate =
  candidateValue :: jsstring
  usage :: StringUsageCollected
  selectiveResult :: SelectiveProfit
  effectiveOccurrences :: int

record SelectiveStringHoistDecision = SelectiveProfit +
  value' :: jsstring
  occurrences :: int

text \<open>The usage record \<open>getStringUsage\<close> creates for a value it has not seen.\<close>

definition emptyUsage :: StringUsageCollected where
  "emptyUsage = \<lparr>literalNodes = [], dotAccessNodes = [], bracketAccessNodes = [],
                 identifierKeyNodes = [], stringKeyNodes = [], classMethodNodes = [],
                 classPropertyNodes = []\<rparr>"

text \<open>One iteration of \<open>for (const [value, usage] of stringUsage)\<close>: the candidate pushed,
  if any.  The counts are sums of array lengths, which are below \<open>2 ^ 32\<close>: these sums
  are exact and are written as sums of integers.\<close>

definition stringCandidateOf :: "jsstring \<times> StringUsageCollected \<Rightarrow> StringCandidate option" where
  "stringCandidateOf entry =
     (let (v, usage) = entry;
          literalCount = int (length (literalNodes usage)) + int (length (bracketAccessNodes usage))
                         + int (length (stringKeyNodes usage));
          propertyAccessCount = int (length (dotAccessNodes usage));
          objectPropertyCount = int (length (identifierKeyNodes usage))
                                + int (length (classMethodNodes usage))
                                + int (length (classPropertyNodes usage));
          totalOccurrences = literalCount + propertyAccessCount + objectPropertyCount
      in if totalOccurrences < 2 then None
         else let selectiveResult = calculateSelectiveStringProfit
                    \<lparr>literalCount = literalCount, propertyAccessCount = propertyAccessCount,
                     objectPropertyCount = objectPropertyCount\<rparr> v 1 False
              in if js_gt (profit selectiveResult) (- 2) then
                   let effectiveOccurrences =
                         (if hoistLiterals selectiveResult then literalCount else 0)
                         + (if hoistPropertyAccess selectiveResult then propertyAccessCount else 0)
                         + (if hoistObjectProperties selectiveResult then objectPropertyCount else 0)
                   in if effectiveOccurrences \<ge> 2
                      then Some \<lparr>candidateValue = v, usage = usage,
                                  selectiveResult = selectiveResult,
                                  effectiveOccurrences = effectiveOccurrences\<rparr>
                      else None
                 else None)"

definition stringCandidates :: "(jsstring \<times> StringUsageCollected) list \<Rightarrow> StringCandidate list" where
  "stringCandidates stringUsage = List.map_filter stringCandidateOf stringUsage"

definition FIRST_DECL_OVERHEAD :: int where
  "FIRST_DECL_OVERHEAD = 5"

text \<open>The choice of \<open>selectedCandidates\<close> and its sort by effective occurrences,
  descending; \<open>Array.prototype.sort\<close> is stable, as \<open>sort_key\<close> is.\<close>

definition selectCandidates :: "StringCandidate list \<Rightarrow> StringCandidate list" where
  "selectCandidates cands =
     (let profitableUnderConst = filter (\<lambda>c. js_gt (profit (selectiveResult c)) 0) cands;
          marginalForSplit =
            filter (\<lambda>c. js_le (profit (selectiveResult c)) 0 \<and> js_gt (profit (selectiveResult c)) (- 2))
              cands;
          selectedCandidates =
            (if length profitableUnderConst \<ge> 7 then profitableUnderConst
             else if length profitableUnderConst + length marginalForSplit \<ge> 7
             then profitableUnderConst @ marginalForSplit
             else profitableUnderConst)
      in sort_key (\<lambda>c. - effectiveOccurrences c) selectedCandidates)"

definition decisionOf :: "StringCandidate \<Rightarrow> SelectiveStringHoistDecision" where
  "decisionOf candidate =
     \<lparr>profit = profit (selectiveResult candidate),
      hoistLiterals = hoistLiterals (selectiveResult candidate),
      hoistPropertyAccess = hoistPropertyAccess (selectiveResult candidate),
      hoistObjectProperties = hoistObjectProperties (selectiveResult candidate),
      value' = candidateValue candidate,
      occurrences = effectiveOccurrences candidate\<rparr>"

text \<open>The loop \<open>for (const candidate of selectedCandidates)\<close> with its two
  accumulators, and the statements after it that re-append the skipped candidates.\<close>

fun firstDeclarationLoop ::
  "StringCandidate list \<Rightarrow> SelectiveStringHoistDecision list \<Rightarrow> StringCandidate list \<Rightarrow>
   SelectiveStringHoistDecision list \<times> StringCandidate list" where
  "firstDeclarationLoop [] stringDecisions skippedAsFirst = (stringDecisions, skippedAsFirst)"
| "firstDeclarationLoop (candidate # rest) stringDecisions skippedAsFirst =
     (let isFirst = (length stringDecisions = 0)
      in if isFirst \<and> js_le (js_minus (profit (selectiveResult candidate)) FIRST_DECL_OVERHEAD) 0
         then (if js_gt (profit (selectiveResult candidate)) 0
               then firstDeclarationLoop rest stringDecisions (skippedAsFirst @ [candidate])
               else firstDeclarationLoop rest stringDecisions skippedAsFirst)
         else firstDeclarationLoop rest (stringDecisions @ [decisionOf candidate]) skippedAsFirst)"

definition stringDecisionsOf :: "StringCandidate list \<Rightarrow> SelectiveStringHoistDecision list" where
  "stringDecisionsOf selectedCandidates =
     (let (stringDecisions, skippedAsFirst) = firstDeclarationLoop selectedCandidates [] []
      in if length stringDecisions > 0
         then sort_key (\<lambda>d. - occurrences d) (stringDecisions @ map decisionOf skippedAsFirst)
         else stringDecisions)"

text \<open>A candidate fails the first-declaration test when \<open>profit - 5 <= 0\<close>.\<close>

definition failsFirstGate :: "StringCandidate \<Rightarrow> bool" where
  "failsFirstGate c = js_le (js_minus (profit (selectiveResult c)) 5) 0"

subsection \<open>Emission of the hoisted strings\<close>

text \<open>\<open>needsEscaping(c)\<close> on the code of the one-character string \<open>c\<close>: the double quote
  (0x22), the single quote (0x27), the backslash (0x5c), LF, CR, U+2028 and U+2029.\<close>

definition needsEscaping :: "nat \<Rightarrow> bool" where
  "needsEscaping code =
     (code = 0x22 \<or> code = 0x27 \<or> code = 0x5c \<or>
      code = 0x0a \<or> code = 0x0d \<or> code = 0x2028 \<or> code = 0x2029)"

definition preferred :: jsstring where
  "preferred = js '',;:|!@#$%^&*~`<>?/-_=+.()[]{}''"

text \<open>
  \<open>findDelimiter(strings)\<close>.  \<open>allChars\<close> collects the characters of all strings; every
  candidate delimiter is a single ASCII code unit, so it is in that set exactly when it is
  one of the code units of a string.  Each of the two \<open>for\<close> loops returns at the first
  candidate that passes its test, which is \<open>find\<close>; \<open>null\<close> is \<open>None\<close>.
\<close>

definition findDelimiter :: "jsstring list \<Rightarrow> nat option" where
  "findDelimiter strings =
     (let allChars = set (concat strings)
      in case find (\<lambda>d. d \<notin> allChars) preferred of
           Some d \<Rightarrow> Some d
         | None \<Rightarrow> find (\<lambda>c. \<not> needsEscaping c \<and> c \<notin> allChars) [32..<127])"

definition isSplitProfitable :: "int \<Rightarrow> bool" where
  "isSplitProfitable stringCount = (stringCount \<ge> 7)"

record HoistedBinding =
  bindingName :: string
  bindingValue :: jsstring
  bindingOccurrences :: int

definition hoistedStringBindings :: "SelectiveStringHoistDecision list \<Rightarrow> HoistedBinding list" where
  "hoistedStringBindings stringDecisions =
     map (\<lambda>(i, decision).
            \<lparr>bindingName = literalPlaceholder i, bindingValue = value' decision,
             bindingOccurrences = occurrences decision\<rparr>)
         (enumerate 0 stringDecisions)"

text \<open>\<open>strings.join(delimiter)\<close> for a one-character delimiter.\<close>

fun js_join :: "jsstring list \<Rightarrow> nat \<Rightarrow> jsstring" where
  "js_join [] d = []"
| "js_join [v] d = v"
| "js_join (v # w # vs) d = v @ d # js_join (w # vs) d"

text \<open>The declaration prepended for the strings: \<open>let [ids] = "joined".split("d")\<close>, or
  \<open>const id = "v", ...\<close>.\<close>

datatype Declaration =
    SplitDeclaration "string list" jsstring nat
  | ConstDeclaration "(string \<times> jsstring) list"

definition stringDeclaration :: "HoistedBinding list \<Rightarrow> Declaration option" where
  "stringDeclaration stringBindings =
     (let delimiter =
            (if length stringBindings > 0 then findDelimiter (map bindingValue stringBindings)
             else None);
          useSplit = (isSplitProfitable (int (length stringBindings)) \<and> delimiter \<noteq> None)
      in if length stringBindings > 0 then
           (case (useSplit, delimiter) of
              (True, Some d) \<Rightarrow>
                Some (SplitDeclaration (map bindingName stringBindings)
                        (js_join (map bindingValue stringBindings) d) d)
            | _ \<Rightarrow>
                Some (ConstDeclaration
                        (map (\<lambda>binding. (bindingName binding, bindingValue binding)) stringBindings)))
         else None)"

text \<open>
  The byte cost of a declaration, computed literally from its compact printed form as the
  specification describes the printer (no optional whitespace, double-quoted strings with
  JSON escaping): \<open>let [a,b]="v1Dv2".split("D")\<close> and \<open>const a="v1",b="v2"\<close>.
\<close>

fun spec_printed_cost :: "Declaration \<Rightarrow> nat" where
  "spec_printed_cost (SplitDeclaration ids joined d) =
     length ''let ['' + (sum_list (map length ids) + (length ids - 1)) + length '']=''
     + JSON_stringify_length joined + length ''.split('' + JSON_stringify_length [d] + length '')''"
| "spec_printed_cost (ConstDeclaration ds) =
     length ''const '' + sum_list (map (\<lambda>(ident, v). length ident + 1 + JSON_stringify_length v) ds)
     + (length ds - 1)"

text \<open>The multi-declarator \<open>const\<close> statement for the same bindings, and whether a
  declaration is the split-packed one.\<close>

definition equivalentConst :: "HoistedBinding list \<Rightarrow> Declaration" where
  "equivalentConst stringBindings =
     ConstDeclaration (map (\<lambda>binding. (bindingName binding, bindingValue binding)) stringBindings)"

definition isSplit :: "Declaration option \<Rightarrow> bool" where
  "isSplit decl = (case decl of Some (SplitDeclaration ids joined d) \<Rightarrow> True | _ \<Rightarrow> False)"

text \<open>
  The string part of \<open>hoistDuplicateLiterals\<close>, from the collected usage to the declaration
  it prepends.  (The rewriting of the collected nodes and the non-string literals, which
  get a \<open>const\<close> declaration of their own, are not modelled.)
\<close>

definition hoistedStrings :: "(jsstring \<times> StringUsageCollected) list \<Rightarrow> HoistedBinding list" where
  "hoistedStrings stringUsage =
     hoistedStringBindings (stringDecisionsOf (selectCandidates (stringCandidates stringUsage)))"

definition hoistedStringDeclaration ::
  "(jsstring \<times> StringUsageCollected) list \<Rightarrow> Declaration option" where
  "hoistedStringDeclaration stringUsage = stringDeclaration (hoistedStrings stringUsage)"

subsection \<open>Example inputs\<close>

text \<open>Seven strings bound to the placeholders \<open>__niu_literal_0__\<close> ..., the same
  strings as collected when each is a literal four times, a string that contains every
  printable ASCII character, two short strings used four times each, and a short string
  used four times with a long one used three times.\<close>

definition bindingsFor :: "jsstring list \<Rightarrow> HoistedBinding list" where
  "bindingsFor vs =
     map (\<lambda>(i, v). \<lparr>bindingName = literalPlaceholder i, bindingValue = v, bindingOccurrences = 4\<rparr>)
         (enumerate 0 vs)"

definition sevenStrings :: "jsstring list" where
  "sevenStrings = map js [''alpha'', ''beta'', ''gamma'', ''delta'', ''eps'', ''zeta'', ''eta'']"

definition sevenUsages :: "(jsstring \<times> StringUsageCollected) list" where
  "sevenUsages = map (\<lambda>v. (v, emptyUsage\<lparr>literalNodes := [0, 1, 2, 3]\<rparr>)) sevenStrings"

definition allPrintable :: jsstring where
  "allPrintable = [32..<127]"

definition twoStrings :: "(jsstring \<times> StringUsageCollected) list" where
  "twoStrings = [(js ''ab'', emptyUsage\<lparr>literalNodes := [0, 1, 2, 3]\<rparr>),
                 (js ''abc'', emptyUsage\<lparr>literalNodes := [4, 5, 6, 7]\<rparr>)]"

definition reorderedStrings :: "(jsstring \<times> StringUsageCollected) list" where
  "reorderedStrings = [(js ''ab'', emptyUsage\<lparr>literalNodes := [0, 1, 2, 3]\<rparr>),
                       (js ''abcdefghij'', emptyUsage\<lparr>literalNodes := [4, 5, 6]\<rparr>)]"

subsection \<open>The first-declaration gate\<close>

lemma loop_after_first:
  "stringDecisions \<noteq> [] \<Longrightarrow>
   firstDeclarationLoop cs stringDecisions skipped = (stringDecisions @ map decisionOf cs, skipped)"
  by (induction cs arbitrary: stringDecisions) simp_all

lemma loop_characterised:
  "firstDeclarationLoop cs [] skipped =
     (map decisionOf (dropWhile failsFirstGate cs),
      skipped @ filter (\<lambda>c. js_gt (profit (selectiveResult c)) 0) (takeWhile failsFirstGate cs))"
proof (induction cs arbitrary: skipped)
  case Nil
  then show ?case by simp
next
  case (Cons c cs)
  show ?case
  proof (cases "failsFirstGate c")
    case True
    then show ?thesis using Cons
      by (simp add: failsFirstGate_def FIRST_DECL_OVERHEAD_def)
  next
    case False
    then show ?thesis
      using loop_after_first [of "[decisionOf c]" cs skipped]
      by (simp add: failsFirstGate_def FIRST_DECL_OVERHEAD_def)
  qed
qed

text \<open>A selected candidate has a profit above \<open>-2\<close>, which is not \<open>NaN\<close>; for such a
  profit \<open>profit - 5 <= 0\<close> is false only when \<open>profit - 5 > 0\<close>.\<close>

lemma js_round_not_NaN: "js_round x \<noteq> NaN"
  by (simp add: js_round_def Let_def)

lemma selected_profit:
  "c \<in> set (selectCandidates cands) \<Longrightarrow> js_gt (profit (selectiveResult c)) (- 2)"
proof -
  have "js_gt p 0 \<Longrightarrow> js_gt p (- 2)" for p by (cases p) simp_all
  then show "c \<in> set (selectCandidates cands) \<Longrightarrow> js_gt (profit (selectiveResult c)) (- 2)"
    by (auto simp: selectCandidates_def Let_def split: if_splits)
qed

lemma passes_gate:
  assumes "js_gt p (- 2)" and "\<not> js_le (js_minus p 5) 0"
  shows "js_gt (js_minus p 5) 0"
proof (cases p)
  case (Num a)
  have "js_minus p 5 = js_round (a + - 5)"
    by (simp add: Num js_minus_def js_sub_def js_add.simps(1))
  with assms(2) js_round_not_NaN [of "a + - 5"] show ?thesis
    by (cases "js_round (a + - 5)") simp_all
qed (use assms in \<open>simp_all add: js_minus_def js_sub_def\<close>)

text \<open>
  Claim C6, as amended.  The loop tries the selected candidates in their order (most
  effective occurrences first).  Let \<open>skipped\<close> be the candidates before the first one
  that passes \<open>profit - 5 > 0\<close> and \<open>accepted\<close> that candidate with all that follow it.
  Every candidate of \<open>skipped\<close> fails the test and is skipped for the first slot; the
  decisions the loop pushes are those of \<open>accepted\<close>, so the first decision pushed
  satisfies \<open>profit - 5 > 0\<close>; the candidates kept in \<open>skippedAsFirst\<close> are the skipped
  ones whose own profit is strictly positive, the others being dropped.  If no candidate
  passes, nothing is hoisted.  Otherwise the kept candidates are appended once each after
  the accepted ones and the whole list is sorted again by occurrences, descending and
  stable: this list, in this order, is the result, so that the string hoisted first in
  the output need not be the first one accepted.
\<close>

theorem first_declaration_gate:
  "(let sel = selectCandidates cands;
        stringDecisions = fst (firstDeclarationLoop sel [] []);
        skippedAsFirst = snd (firstDeclarationLoop sel [] []);
        skipped = takeWhile failsFirstGate sel;
        accepted = dropWhile failsFirstGate sel
    in sorted (map (\<lambda>c. - effectiveOccurrences c) sel) \<and>
       sel = skipped @ accepted \<and>
       (\<forall>c \<in> set skipped. js_le (js_minus (profit (selectiveResult c)) 5) 0) \<and>
       stringDecisions = map decisionOf accepted \<and>
       (stringDecisions \<noteq> [] \<longrightarrow> js_gt (js_minus (profit (hd stringDecisions)) 5) 0) \<and>
       skippedAsFirst = filter (\<lambda>c. js_gt (profit (selectiveResult c)) 0) skipped \<and>
       stringDecisionsOf sel =
         (if accepted = [] then []
          else sort_key (\<lambda>d. - occurrences d)
                 (map decisionOf accepted @
                  map decisionOf (filter (\<lambda>c. js_gt (profit (selectiveResult c)) 0) skipped))))"
proof -
  define sel where "sel = selectCandidates cands"
  define accepted where "accepted = dropWhile failsFirstGate sel"
  have loop: "firstDeclarationLoop sel [] [] =
      (map decisionOf accepted,
       filter (\<lambda>c. js_gt (profit (selectiveResult c)) 0) (takeWhile failsFirstGate sel))"
    by (simp add: loop_characterised accepted_def)
  have a: "js_gt (js_minus (profit (hd (map decisionOf accepted))) 5) 0" if ne: "accepted \<noteq> []"
  proof -
    have "hd accepted \<in> set sel"
      using ne set_dropWhileD [of "hd accepted" failsFirstGate sel] by (simp add: accepted_def)
    then have g: "js_gt (profit (selectiveResult (hd accepted))) (- 2)"
      unfolding sel_def by (rule selected_profit)
    have "\<not> failsFirstGate (hd accepted)"
      using ne unfolding accepted_def by (rule hd_dropWhile)
    then have "js_gt (js_minus (profit (selectiveResult (hd accepted))) 5) 0"
      using g by (intro passes_gate) (simp_all add: failsFirstGate_def)
    then show ?thesis using ne by (simp add: hd_map decisionOf_def)
  qed
  have b: "\<forall>c \<in> set (takeWhile failsFirstGate sel).
      js_le (js_minus (profit (selectiveResult c)) 5) 0"
    using set_takeWhileD [of _ failsFirstGate sel] by (auto simp: failsFirstGate_def)
  have d: "stringDecisionsOf sel =
      (if accepted = [] then []
       else sort_key (\<lambda>d. - occurrences d)
              (map decisionOf accepted @
               map decisionOf (filter (\<lambda>c. js_gt (profit (selectiveResult c)) 0)
                                 (takeWhile failsFirstGate sel))))"
    by (simp add: stringDecisionsOf_def loop)
  have e: "sel = takeWhile failsFirstGate sel @ accepted"
    by (simp add: accepted_def)
  have s: "sorted (map (\<lambda>c. - effectiveOccurrences c) sel)"
    by (simp add: sel_def selectCandidates_def Let_def)
  show ?thesis
    unfolding Let_def sel_def [symmetric] accepted_def [symmetric] loop fst_conv snd_conv
    using a b d e s by simp
qed

lemmas candidate_defs = twoStrings_def emptyUsage_def stringCandidates_def stringCandidateOf_def
  List.map_filter_def calculateSelectiveStringProfit_def isPropertyAccessProfitable_def
  isObjectPropertyProfitable_def getDeclarationCost_def selectCandidates_def Let_def
  failsFirstGate_def js_def JSON_stringify_length_def json_unit_length_def
  is_high_surrogate_def is_low_surrogate_def

text \<open>\<open>"ab"\<close> used four times has profit 5 and is skipped for the first slot; \<open>"abc"\<close>
  used four times has profit 8 and is accepted, after which \<open>"ab"\<close> is re-appended.  Alone,
  \<open>"ab"\<close> is not hoisted.\<close>

theorem first_declaration_gate_witness:
  "map candidateValue (selectCandidates (stringCandidates twoStrings)) = [js ''ab'', js ''abc''] \<and>
   map (\<lambda>c. profit (selectiveResult c)) (selectCandidates (stringCandidates twoStrings))
     = [Num 5, Num 8] \<and>
   map value' (fst (firstDeclarationLoop (selectCandidates (stringCandidates twoStrings)) [] []))
     = [js ''abc''] \<and>
   map value' (stringDecisionsOf (selectCandidates (stringCandidates twoStrings)))
     = [js ''abc'', js ''ab''] \<and>
   stringDecisionsOf (selectCandidates (stringCandidates (butlast twoStrings))) = []"
proof -
  let ?sel = "selectCandidates (stringCandidates twoStrings)"
  have v: "map candidateValue ?sel = [js ''ab'', js ''abc'']"
    and p: "map (\<lambda>c. profit (selectiveResult c)) ?sel = [Num 5, Num 8]"
    and o: "map effectiveOccurrences ?sel = [4, 4]"
    by (simp_all add: candidate_defs)
  obtain c1 c2 where sel: "?sel = [c1, c2]"
    and c1: "candidateValue c1 = js ''ab''" "profit (selectiveResult c1) = Num 5"
      "effectiveOccurrences c1 = 4"
    and c2: "candidateValue c2 = js ''abc''" "profit (selectiveResult c2) = Num 8"
      "effectiveOccurrences c2 = 4"
    using v p o by (cases ?sel; cases "tl ?sel"; cases "tl (tl ?sel)") auto
  have tw: "takeWhile failsFirstGate ?sel = [c1]" "dropWhile failsFirstGate ?sel = [c2]"
    unfolding sel by (simp_all add: failsFirstGate_def c1 c2)
  note gate = first_declaration_gate [of "stringCandidates twoStrings", unfolded Let_def]
  from gate have "fst (firstDeclarationLoop ?sel [] []) = map decisionOf (dropWhile failsFirstGate ?sel)"
    by blast
  then have l: "fst (firstDeclarationLoop ?sel [] []) = [decisionOf c2]"
    unfolding tw by simp
  from gate have "stringDecisionsOf ?sel =
      (if dropWhile failsFirstGate ?sel = [] then []
       else sort_key (\<lambda>d. - occurrences d)
              (map decisionOf (dropWhile failsFirstGate ?sel) @
               map decisionOf (filter (\<lambda>c. js_gt (profit (selectiveResult c)) 0)
                                 (takeWhile failsFirstGate ?sel))))"
    by blast
  then have d: "stringDecisionsOf ?sel = [decisionOf c2, decisionOf c1]"
    unfolding tw by (simp add: c1 c2 decisionOf_def)
  have m: "map value' (fst (firstDeclarationLoop ?sel [] [])) = [js ''abc'']"
    "map value' (stringDecisionsOf ?sel) = [js ''abc'', js ''ab'']"
    unfolding l d by (simp_all add: decisionOf_def c1 c2)
  let ?one = "selectCandidates (stringCandidates (butlast twoStrings))"
  have none: "dropWhile failsFirstGate ?one = []" by (simp add: candidate_defs)
  from first_declaration_gate [of "stringCandidates (butlast twoStrings)", unfolded Let_def]
  have "stringDecisionsOf ?one =
      (if dropWhile failsFirstGate ?one = [] then []
       else sort_key (\<lambda>d. - occurrences d)
              (map decisionOf (dropWhile failsFirstGate ?one) @
               map decisionOf (filter (\<lambda>c. js_gt (profit (selectiveResult c)) 0)
                                 (takeWhile failsFirstGate ?one))))"
    by blast
  then have e: "stringDecisionsOf ?one = []" unfolding none by simp
  from v p m e show ?thesis by simp
qed

text \<open>
  The claim as stated fails for the string hoisted first.  \<open>"ab"\<close> used four times is
  tried first and skipped (profit 5), \<open>"abcdefghij"\<close> used three times is accepted (profit
  18), \<open>"ab"\<close> is re-appended and the final sort puts it first again: it becomes
  \<open>__niu_literal_0__\<close>, the first string hoisted, and its \<open>profit - 5\<close> is 0.
\<close>

theorem first_hoisted_fails_gate_counterexample:
  "map bindingValue (hoistedStrings reorderedStrings) = [js ''ab'', js ''abcdefghij''] \<and>
   map bindingName (hoistedStrings reorderedStrings)
     = [''__niu_literal_0__'', ''__niu_literal_1__''] \<and>
   map profit (stringDecisionsOf (selectCandidates (stringCandidates reorderedStrings)))
     = [Num 5, Num 18] \<and>
   \<not> js_gt (js_minus
               (profit (hd (stringDecisionsOf (selectCandidates (stringCandidates reorderedStrings)))))
               5) 0"
  by (simp add: hoistedStrings_def reorderedStrings_def candidate_defs hoistedStringBindings_def
      stringDecisionsOf_def decisionOf_def FIRST_DECL_OVERHEAD_def enumerate_eq_zip
      literalPlaceholder_def decimal.simps char_of_zero_digit char_of_one_digit)

subsection \<open>The delimiter and the split-packed form\<close>

lemma preferred_codes:
  "preferred = [44, 59, 58, 124, 33, 64, 35, 36, 37, 94, 38, 42, 126, 96, 60, 62, 63, 47,
                45, 95, 61, 43, 46, 40, 41, 91, 93, 123, 125]"
  by (simp add: preferred_def js_def)

lemma preferred_plain: "d \<in> set preferred \<Longrightarrow> 32 \<le> d \<and> d < 127 \<and> \<not> needsEscaping d"
  unfolding preferred_codes needsEscaping_def by auto

lemma findDelimiter_plain:
  assumes "findDelimiter strings = Some d"
  shows "32 \<le> d \<and> d < 127 \<and> \<not> needsEscaping d \<and> d \<notin> set (concat strings)"
proof (cases "find (\<lambda>d. d \<notin> set (concat strings)) preferred")
  case None
  with assms have "find (\<lambda>c. \<not> needsEscaping c \<and> c \<notin> set (concat strings)) [32..<127] = Some d"
    by (simp add: findDelimiter_def)
  then obtain i where i: "i < length [32..<127]" "[32..<127] ! i = d"
      and p: "\<not> needsEscaping d \<and> d \<notin> set (concat strings)"
    unfolding find_Some_iff by blast
  from i have "d \<in> set [32..<127]" by (metis nth_mem)
  then have "32 \<le> d \<and> d < 127" unfolding set_upt atLeastLessThan_iff .
  with p show ?thesis by blast
next
  case (Some e)
  with assms have e: "e = d" by (simp add: findDelimiter_def)
  from Some obtain i where "i < length preferred" "preferred ! i = e" "e \<notin> set (concat strings)"
    unfolding find_Some_iff by blast
  then have "e \<in> set preferred" by (metis nth_mem)
  with preferred_plain [of e] \<open>e \<notin> set (concat strings)\<close> e show ?thesis by simp
qed


lemma plain_unit_length:
  "32 \<le> d \<Longrightarrow> d < 127 \<Longrightarrow> \<not> needsEscaping d \<Longrightarrow>
   json_unit_length d = 1 \<and> \<not> is_high_surrogate d \<and> \<not> is_low_surrogate d"
  by (simp add: needsEscaping_def json_unit_length_def is_high_surrogate_def is_low_surrogate_def)

lemma json_units_length_Cons_plain:
  "\<not> is_high_surrogate d \<Longrightarrow> json_units_length (d # b) = json_unit_length d + json_units_length b"
  by (cases b) simp_all

lemma json_units_length_append_plain:
  "\<not> is_high_surrogate d \<Longrightarrow> \<not> is_low_surrogate d \<Longrightarrow>
   json_units_length (a @ d # b) = json_units_length a + json_unit_length d + json_units_length b"
proof (induction a rule: json_units_length.induct)
  case 1
  then show ?case by (simp add: json_units_length_Cons_plain)
next
  case (2 c)
  then show ?case by (simp add: json_units_length_Cons_plain)
next
  case (3 c e cs)
  then show ?case by simp
qed

lemma json_units_length_join:
  assumes "\<not> is_high_surrogate d" "\<not> is_low_surrogate d" "json_unit_length d = 1"
  shows "json_units_length (js_join vs d) = sum_list (map json_units_length vs) + (length vs - 1)"
  using assms
proof (induction vs d rule: js_join.induct)
  case (1 d)
  then show ?case by simp
next
  case (2 v d)
  then show ?case by simp
next
  case (3 v w vs d)
  then show ?case by (simp add: json_units_length_append_plain)
qed

lemma const_cost_sum:
  "sum_list (map (\<lambda>(ident, v). length ident + 1 + JSON_stringify_length v)
              (map (\<lambda>binding. (bindingName binding, bindingValue binding)) bs))
   = sum_list (map length (map bindingName bs))
     + sum_list (map json_units_length (map bindingValue bs)) + 3 * length bs"
  by (induction bs) (simp_all add: JSON_stringify_length_def)

lemma split_cheaper:
  assumes n: "7 \<le> length bs" and d: "findDelimiter (map bindingValue bs) = Some d"
  shows "spec_printed_cost (SplitDeclaration (map bindingName bs) (js_join (map bindingValue bs) d) d)
         < spec_printed_cost (ConstDeclaration (map (\<lambda>binding. (bindingName binding, bindingValue binding)) bs))"
proof -
  from findDelimiter_plain [OF d] have "32 \<le> d" "d < 127" "\<not> needsEscaping d" by simp_all
  from plain_unit_length [OF this]
  have p: "json_unit_length d = 1" "\<not> is_high_surrogate d" "\<not> is_low_surrogate d" by simp_all
  have j: "json_units_length (js_join (map bindingValue bs) d)
           = sum_list (map json_units_length (map bindingValue bs)) + (length bs - 1)"
    using json_units_length_join [OF p(2) p(3) p(1), of "map bindingValue bs"] by simp
  have js1: "JSON_stringify_length [d] = 3"
    by (simp add: JSON_stringify_length_def p(1))
  have jj: "JSON_stringify_length (js_join (map bindingValue bs) d)
           = 2 + sum_list (map json_units_length (map bindingValue bs)) + (length bs - 1)"
    by (simp add: JSON_stringify_length_def j)
  show ?thesis
    unfolding spec_printed_cost.simps const_cost_sum js1 jj
    using n by simp
qed

text \<open>
  Claim C3.  For a non-empty list of string bindings the split-packed form is emitted if
  and only if there are at least 7 bindings, \<open>findDelimiter\<close> returns a delimiter (which
  occurs in none of the strings), and the byte cost of the split statement is below that of
  the equivalent multi-declarator \<open>const\<close> statement; otherwise that \<open>const\<close> statement
  is emitted.  The source tests only the count and the delimiter: with at least 7 bindings
  the split statement is always the cheaper one (the difference is \<open>2n - 13\<close> bytes), so
  the cost comparison never changes the outcome.
\<close>

theorem split_form_only_when_gated_and_cheaper:
  assumes "stringBindings \<noteq> []"
  shows "(isSplit (stringDeclaration stringBindings) \<longleftrightarrow>
            7 \<le> length stringBindings \<and>
            (\<exists>d. findDelimiter (map bindingValue stringBindings) = Some d \<and>
                 d \<notin> set (concat (map bindingValue stringBindings)) \<and>
                 stringDeclaration stringBindings =
                   Some (SplitDeclaration (map bindingName stringBindings)
                           (js_join (map bindingValue stringBindings) d) d) \<and>
                 spec_printed_cost (SplitDeclaration (map bindingName stringBindings)
                           (js_join (map bindingValue stringBindings) d) d)
                   < spec_printed_cost (equivalentConst stringBindings))) \<and>
         (\<not> isSplit (stringDeclaration stringBindings) \<longrightarrow>
            stringDeclaration stringBindings = Some (equivalentConst stringBindings))"
proof (cases "7 \<le> length stringBindings \<and> findDelimiter (map bindingValue stringBindings) \<noteq> None")
  case True
  then obtain d where d: "findDelimiter (map bindingValue stringBindings) = Some d" by blast
  have s: "stringDeclaration stringBindings =
             Some (SplitDeclaration (map bindingName stringBindings)
                     (js_join (map bindingValue stringBindings) d) d)"
    using True d assms by (simp add: stringDeclaration_def isSplitProfitable_def)
  have c: "spec_printed_cost (SplitDeclaration (map bindingName stringBindings)
                           (js_join (map bindingValue stringBindings) d) d)
                   < spec_printed_cost (equivalentConst stringBindings)"
    unfolding equivalentConst_def using True d by (intro split_cheaper) simp_all
  have "d \<notin> set (concat (map bindingValue stringBindings))"
    using findDelimiter_plain [OF d] by simp
  with s c d True show ?thesis by (simp add: isSplit_def)
next
  case False
  then have "stringDeclaration stringBindings = Some (equivalentConst stringBindings)"
    using assms
    by (auto simp: stringDeclaration_def isSplitProfitable_def equivalentConst_def
             split: option.splits bool.splits)
  with False show ?thesis by (auto simp: isSplit_def equivalentConst_def)
qed

lemmas example_defs = sevenStrings_def bindingsFor_def equivalentConst_def js_def
  literalPlaceholder_def decimal.simps JSON_stringify_length_def json_unit_length_def
  is_high_surrogate_def is_low_surrogate_def enumerate_eq_zip stringDeclaration_def
  isSplitProfitable_def findDelimiter_def preferred_def needsEscaping_def

text \<open>Seven strings are split-packed on the comma, 180 bytes against 181; six are not.
  The seven bindings are the ones hoisted when each string is a literal four times.\<close>

theorem split_form_witness:
  "isSplit (stringDeclaration (bindingsFor sevenStrings)) \<and>
   findDelimiter sevenStrings = Some 44 \<and>
   spec_printed_cost (SplitDeclaration (map bindingName (bindingsFor sevenStrings))
                        (js_join sevenStrings 44) 44) = 180 \<and>
   spec_printed_cost (equivalentConst (bindingsFor sevenStrings)) = 181 \<and>
   stringDeclaration (bindingsFor (butlast sevenStrings))
     = Some (equivalentConst (bindingsFor (butlast sevenStrings))) \<and>
   hoistedStrings sevenUsages = bindingsFor sevenStrings"
proof -
  have e: "hoistedStrings sevenUsages = bindingsFor sevenStrings"
    by (simp add: hoistedStrings_def sevenUsages_def candidate_defs example_defs
          hoistedStringBindings_def stringDecisionsOf_def decisionOf_def FIRST_DECL_OVERHEAD_def)
  have ne: "bindingsFor sevenStrings \<noteq> []" "bindingsFor (butlast sevenStrings) \<noteq> []"
    by (simp_all add: example_defs)
  have vals: "map bindingValue (bindingsFor sevenStrings) = sevenStrings"
    by (simp add: example_defs)
  have len: "7 \<le> length (bindingsFor sevenStrings)"
    "\<not> 7 \<le> length (bindingsFor (butlast sevenStrings))" by (simp_all add: example_defs)
  have d: "findDelimiter sevenStrings = Some 44" by (simp add: example_defs)
  have c1: "spec_printed_cost (SplitDeclaration (map bindingName (bindingsFor sevenStrings))
                        (js_join sevenStrings 44) 44) = 180" by (simp add: example_defs)
  have c2: "spec_printed_cost (equivalentConst (bindingsFor sevenStrings)) = 181"
    by (simp add: example_defs)
  have s: "stringDeclaration (bindingsFor sevenStrings) =
             Some (SplitDeclaration (map bindingName (bindingsFor sevenStrings))
                        (js_join sevenStrings 44) 44)" by (simp add: example_defs)
  have nomem: "44 \<notin> set (concat sevenStrings)" by (simp add: example_defs)
  from split_form_only_when_gated_and_cheaper [OF ne(1)] len(1) d c1 c2 s nomem
  have a: "isSplit (stringDeclaration (bindingsFor sevenStrings))"
    unfolding vals by simp
  from split_form_only_when_gated_and_cheaper [OF ne(2)] len(2)
  have b: "stringDeclaration (bindingsFor (butlast sevenStrings))
     = Some (equivalentConst (bindingsFor (butlast sevenStrings)))"
    by blast
  from a b d c1 c2 e show ?thesis by simp
qed

lemma needsEscaping_iff:
  "needsEscaping c \<longleftrightarrow> c \<in> {0x22, 0x27, 0x5C, 0x0D, 0x0A, 0x2028, 0x2029}"
  by (auto simp: needsEscaping_def)

lemma find_upt_least:
  assumes "find P [a..<b] = Some c"
  shows "a \<le> c \<and> c < b \<and> P c \<and> (\<forall>c'. a \<le> c' \<and> c' < c \<longrightarrow> \<not> P c')"
proof -
  from assms obtain i where i: "i < length [a..<b]" "P ([a..<b] ! i)" "c = [a..<b] ! i"
      and least: "\<forall>j<i. \<not> P ([a..<b] ! j)"
    unfolding find_Some_iff by blast
  from i have c: "c = a + i" "a + i < b" by simp_all
  have "\<not> P c'" if "a \<le> c'" "c' < c" for c'
  proof -
    from that c have "c' - a < i" by simp
    with least have "\<not> P ([a..<b] ! (c' - a))" by blast
    moreover have "[a..<b] ! (c' - a) = c'" using that c by simp
    ultimately show ?thesis by simp
  qed
  with i c show ?thesis by auto
qed

text \<open>
  Claim C8.  The delimiter is the first character of the preference string that occurs in
  none of the strings; if all of those occur, it is the first printable ASCII character
  (codes 32 to 126) that is not an escape trigger and occurs in none of the strings; if
  there is no such character either, \<open>findDelimiter\<close> returns \<open>null\<close> and the
  multi-declarator \<open>const\<close> statement is emitted.
\<close>

theorem delimiter_choice:
  "(let chars = set (concat strings);
        escapes = {0x22, 0x27, 0x5C, 0x0D, 0x0A, 0x2028, 0x2029};
        fallback = (\<lambda>c. 32 \<le> c \<and> c \<le> 126 \<and> c \<notin> escapes \<and> c \<notin> chars)
    in ((\<exists>k<length preferred. preferred ! k \<notin> chars) \<longrightarrow>
          (\<exists>k<length preferred. findDelimiter strings = Some (preferred ! k) \<and>
               preferred ! k \<notin> chars \<and> (\<forall>j<k. preferred ! j \<in> chars))) \<and>
       ((\<forall>k<length preferred. preferred ! k \<in> chars) \<and> (\<exists>c. fallback c) \<longrightarrow>
          (\<exists>c. findDelimiter strings = Some c \<and> fallback c \<and> (\<forall>c'<c. \<not> fallback c'))) \<and>
       ((\<forall>k<length preferred. preferred ! k \<in> chars) \<and> (\<forall>c. \<not> fallback c) \<longrightarrow>
          findDelimiter strings = None \<and>
          (stringBindings \<noteq> [] \<and> map bindingValue stringBindings = strings \<longrightarrow>
             stringDeclaration stringBindings = Some (equivalentConst stringBindings))))"
proof -
  define chars where "chars = set (concat strings)"
  define fallback where
    "fallback = (\<lambda>c::nat. 32 \<le> c \<and> c \<le> 126 \<and> c \<notin> {0x22, 0x27, 0x5C, 0x0D, 0x0A, 0x2028, 0x2029}
                   \<and> c \<notin> chars)"
  let ?P = "\<lambda>c. \<not> needsEscaping c \<and> c \<notin> chars"
  have fb: "fallback c \<longleftrightarrow> 32 \<le> c \<and> c < 127 \<and> ?P c" for c
    unfolding fallback_def needsEscaping_iff by auto
  have one: "\<exists>k<length preferred. findDelimiter strings = Some (preferred ! k) \<and>
               preferred ! k \<notin> chars \<and> (\<forall>j<k. preferred ! j \<in> chars)"
    if "\<exists>k<length preferred. preferred ! k \<notin> chars"
  proof -
    from that have "find (\<lambda>d. d \<notin> chars) preferred \<noteq> None"
      unfolding find_None_iff by (metis nth_mem)
    then obtain d where d: "find (\<lambda>d. d \<notin> chars) preferred = Some d" by blast
    then obtain k where "k < length preferred" "preferred ! k \<notin> chars" "d = preferred ! k"
        "\<forall>j<k. \<not> preferred ! j \<notin> chars"
      unfolding find_Some_iff by blast
    moreover have "findDelimiter strings = Some d"
      using d by (simp add: findDelimiter_def chars_def)
    ultimately show ?thesis by blast
  qed
  have none: "find (\<lambda>d. d \<notin> chars) preferred = None"
    if "\<forall>k<length preferred. preferred ! k \<in> chars"
    unfolding find_None_iff using that by (metis in_set_conv_nth)
  have two: "\<exists>c. findDelimiter strings = Some c \<and> fallback c \<and> (\<forall>c'<c. \<not> fallback c')"
    if a: "\<forall>k<length preferred. preferred ! k \<in> chars" and b: "\<exists>c. fallback c"
  proof -
    from b obtain c0 where "fallback c0" by blast
    then have "c0 \<in> set [32..<127]" "?P c0" unfolding fb by (simp_all del: upt_rec_numeral)
    then have "find ?P [32..<127] \<noteq> None" unfolding find_None_iff by blast
    then obtain c where c: "find ?P [32..<127] = Some c" by blast
    from find_upt_least [OF c]
    have l: "32 \<le> c" "c < 127" "?P c" "\<forall>c'. 32 \<le> c' \<and> c' < c \<longrightarrow> \<not> ?P c'" by blast+
    have "findDelimiter strings = Some c"
      using none [OF a] c by (simp add: findDelimiter_def chars_def)
    moreover have "fallback c" unfolding fb using l by simp
    moreover have "\<forall>c'<c. \<not> fallback c'" unfolding fb using l by auto
    ultimately show ?thesis by blast
  qed
  have three: "findDelimiter strings = None"
    if a: "\<forall>k<length preferred. preferred ! k \<in> chars" and b: "\<forall>c. \<not> fallback c"
  proof -
    have "find ?P [32..<127] = None"
      unfolding find_None_iff using b fb by (auto simp del: upt_rec_numeral)
    then show ?thesis using none [OF a] by (simp add: findDelimiter_def chars_def)
  qed
  have four: "stringDeclaration stringBindings = Some (equivalentConst stringBindings)"
    if "findDelimiter strings = None" "stringBindings \<noteq> []"
       "map bindingValue stringBindings = strings"
    using that by (simp add: stringDeclaration_def equivalentConst_def)
  note facts = one two [unfolded fallback_def] three [unfolded fallback_def] four
  show ?thesis
    unfolding Let_def chars_def [symmetric]
    apply (intro conjI impI)
    subgoal using facts(1) by blast
    subgoal using facts(2) by blast
    subgoal using facts(3) by blast
    subgoal using facts(3,4) by blast
    done
qed

text \<open>The colon is the first preferred character absent from \<open>"a,b"\<close> and \<open>"c;d"\<close>;
  the space is chosen when every preferred character occurs; and seven bindings, one of
  which contains every printable character, are emitted as a \<open>const\<close> statement.\<close>

theorem delimiter_choice_witness:
  "preferred ! 2 \<notin> set (concat [js ''a,b'', js ''c;d'']) \<and>
   findDelimiter [js ''a,b'', js ''c;d''] = Some (preferred ! 2) \<and>
   findDelimiter [preferred] = Some 32 \<and>
   findDelimiter (allPrintable # butlast sevenStrings) = None \<and>
   7 \<le> length (bindingsFor (allPrintable # butlast sevenStrings)) \<and>
   stringDeclaration (bindingsFor (allPrintable # butlast sevenStrings))
     = Some (equivalentConst (bindingsFor (allPrintable # butlast sevenStrings)))"
proof -
  let ?ss = "allPrintable # butlast sevenStrings"
  have n: "findDelimiter ?ss = None" by (simp add: example_defs allPrintable_def)
  have all: "\<forall>k<length preferred. preferred ! k \<in> set (concat ?ss)"
  proof (intro allI impI)
    fix k assume "k < length preferred"
    then have "preferred ! k \<in> set preferred" by simp
    from preferred_plain [OF this]
    have "preferred ! k \<in> set allPrintable" by (simp add: allPrintable_def del: upt_rec_numeral)
    then show "preferred ! k \<in> set (concat ?ss)" by simp
  qed
  have nofb: "\<forall>c. \<not> (32 \<le> c \<and> c \<le> 126 \<and> c \<notin> {0x22, 0x27, 0x5C, 0x0D, 0x0A, 0x2028, 0x2029}
                 \<and> c \<notin> set (concat ?ss))"
    by (auto simp: allPrintable_def simp del: upt_rec_numeral)
  have ne: "bindingsFor ?ss \<noteq> []" by (simp add: example_defs)
  have vals: "map bindingValue (bindingsFor ?ss) = ?ss"
    by (simp add: example_defs del: upt_rec_numeral)
  from delimiter_choice [of ?ss "bindingsFor ?ss"] all nofb ne vals
  have c: "stringDeclaration (bindingsFor ?ss) = Some (equivalentConst (bindingsFor ?ss))"
    unfolding Let_def by blast
  have a: "preferred ! 2 \<notin> set (concat [js ''a,b'', js ''c;d''])"
    "findDelimiter [js ''a,b'', js ''c;d''] = Some (preferred ! 2)"
    "findDelimiter [preferred] = Some 32"
    by (simp_all add: example_defs)
  have l: "7 \<le> length (bindingsFor ?ss)" by (simp add: example_defs)
  from a n l c show ?thesis by simp
qed


section \<open>The identifier mangler: short names\<close>

definition CHARS :: string where
  "CHARS = ''etaonirshldcumfpgwybvkxjqzETAONIRSHLDCUMFPGWYBVKXJQZ$_''"

text \<open>\<open>CHARS[i] ?? ''\<close>: the character at an index, the empty string out of range.\<close>

definition charAt :: "string \<Rightarrow> nat \<Rightarrow> string" where
  "charAt s i = (if i < length s then [s ! i] else [])"

text \<open>
  \<open>indexToName(index)\<close>.  The index is a natural number (the generator counts up from
  0).  The source's \<open>while (remaining >= 0)\<close> is entered with
  \<open>remaining = Math.floor((index - base) / base) \<ge> 0\<close> and continues with
  \<open>Math.floor(remaining / base) - 1\<close> only when \<open>remaining \<ge> base\<close>, so its guard
  always holds and the subtraction never goes below zero; the loop is the recursion
  \<open>indexToName_loop\<close> on the pair (remaining, result).
\<close>

function indexToName_loop :: "nat \<Rightarrow> string \<Rightarrow> string" where
  "indexToName_loop remaining result =
     (let base = length CHARS
      in if remaining < base then charAt CHARS remaining @ result
         else indexToName_loop (remaining div base - 1) (charAt CHARS (remaining mod base) @ result))"
  by pat_completeness auto
termination
  by (relation "measure fst") (auto simp: CHARS_def intro: less_le_trans [OF _ div_le_dividend])

declare indexToName_loop.simps [simp del]

definition indexToName :: "nat \<Rightarrow> string" where
  "indexToName index =
     (let base = length CHARS
      in if index < base then charAt CHARS index
         else let remaining = index - base;
                  result = charAt CHARS (remaining mod base);
                  remaining = remaining div base
              in indexToName_loop remaining result)"



subsection \<open>The names are bijective base-54 numerals\<close>

text \<open>\<open>name_digits i\<close> lists the positions in \<open>CHARS\<close> of the characters of
  \<open>indexToName i\<close>; \<open>digits_code\<close> reads such a list back as \<open>i + 1\<close>.\<close>

lemma length_CHARS: "length CHARS = 54" by (simp add: CHARS_def)
lemma distinct_CHARS: "distinct CHARS" by (simp add: CHARS_def)

function name_digits :: "nat \<Rightarrow> nat list" where
  "name_digits i = (if i < 54 then [i] else name_digits (i div 54 - 1) @ [i mod 54])"
  by pat_completeness auto
termination
  by (relation "measure id") (auto intro: less_le_trans [OF _ div_le_dividend])

declare name_digits.simps [simp del]

lemma loop_digits: "indexToName_loop r acc = map ((!) CHARS) (name_digits r) @ acc"
proof (induction r acc rule: indexToName_loop.induct)
  case (1 remaining result)
  show ?case
  proof (cases "remaining < 54")
    case True
    then show ?thesis
      by (subst indexToName_loop.simps, subst name_digits.simps) (simp add: length_CHARS charAt_def)
  next
    case False
    then have "indexToName_loop remaining result =
       indexToName_loop (remaining div 54 - 1) (charAt CHARS (remaining mod 54) @ result)"
      by (subst indexToName_loop.simps) (simp add: length_CHARS)
    also have "\<dots> = map ((!) CHARS) (name_digits (remaining div 54 - 1)) @ charAt CHARS (remaining mod 54) @ result"
      using "1.IH" [of 54] False by (simp add: length_CHARS)
    also have "\<dots> = map ((!) CHARS) (name_digits remaining) @ result"
      using False by (subst (2) name_digits.simps) (simp add: charAt_def length_CHARS)
    finally show ?thesis .
  qed
qed

lemma indexToName_digits: "indexToName i = map ((!) CHARS) (name_digits i)"
proof (cases "i < 54")
  case True
  then show ?thesis
    by (subst name_digits.simps) (simp add: indexToName_def length_CHARS charAt_def)
next
  case False
  then obtain k where k: "i = k + 54"
    by (metis le_add_diff_inverse2 not_less)
  have d: "(i - 54) div 54 = i div 54 - 1"
    unfolding k by simp
  have m: "(i - 54) mod 54 = i mod 54"
    unfolding k by simp
  show ?thesis using False
    by (subst name_digits.simps) (simp add: indexToName_def length_CHARS loop_digits d m charAt_def Let_def)
qed


definition digits_code :: "nat list \<Rightarrow> nat" where
  "digits_code ds = foldl (\<lambda>a d. 54 * a + d + 1) 0 ds"

lemma digits_code_snoc: "digits_code (ds @ [d]) = 54 * digits_code ds + d + 1"
  by (simp add: digits_code_def)

lemma digits_code_name_digits: "digits_code (name_digits i) = i + 1"
proof (induction i rule: name_digits.induct)
  case (1 i)
  show ?case
  proof (cases "i < 54")
    case True
    then show ?thesis by (subst name_digits.simps) (simp add: digits_code_def)
  next
    case False
    then have q: "1 \<le> i div 54" by (simp add: Suc_le_eq div_greater_zero_iff)
    have "digits_code (name_digits i) = 54 * digits_code (name_digits (i div 54 - 1)) + i mod 54 + 1"
      using False by (subst name_digits.simps) (simp add: digits_code_snoc)
    also have "\<dots> = 54 * (i div 54) + i mod 54 + 1"
      using "1.IH" False q by simp
    finally show ?thesis by simp
  qed
qed

lemma name_digits_inj: "name_digits i = name_digits j \<Longrightarrow> i = j"
  by (metis digits_code_name_digits add_right_cancel)

lemma name_digits_bound: "d \<in> set (name_digits i) \<Longrightarrow> d < 54"
proof (induction i rule: name_digits.induct)
  case (1 i)
  then show ?case
    by (subst (asm) (2) name_digits.simps) (auto split: if_splits)
qed

lemma name_digits_nonempty: "name_digits i \<noteq> []"
  by (subst name_digits.simps) simp

lemma name_digits_of_code:
  "ds \<noteq> [] \<Longrightarrow> \<forall>d\<in>set ds. d < 54 \<Longrightarrow> name_digits (digits_code ds - 1) = ds"
proof (induction ds rule: rev_induct)
  case Nil
  then show ?case by simp
next
  case (snoc d ds)
  have d: "d < 54" using snoc.prems by simp
  show ?case
  proof (cases "ds = []")
    case True
    then show ?thesis using d by (subst name_digits.simps) (simp add: digits_code_def)
  next
    case False
    then have ih: "name_digits (digits_code ds - 1) = ds" using snoc by simp
    have pos: "1 \<le> digits_code ds"
      using False by (cases ds rule: rev_cases) (simp_all add: digits_code_snoc)
    let ?i = "54 * digits_code ds + d"
    have "\<not> ?i < 54" using pos by simp
    moreover have "?i div 54 = digits_code ds" using d by simp
    moreover have "?i mod 54 = d" using d by simp
    ultimately have "name_digits ?i = name_digits (digits_code ds - 1) @ [d]"
      by (subst name_digits.simps) simp
    then show ?thesis using ih by (simp add: digits_code_snoc)
  qed
qed

lemma nth_CHARS_inj: "i < 54 \<Longrightarrow> j < 54 \<Longrightarrow> CHARS ! i = CHARS ! j \<Longrightarrow> i = j"
  using distinct_CHARS by (simp add: nth_eq_iff_index_eq length_CHARS)

lemma map_CHARS_inj:
  "\<forall>d\<in>set xs. d < 54 \<Longrightarrow> \<forall>d\<in>set ys. d < 54 \<Longrightarrow>
   map ((!) CHARS) xs = map ((!) CHARS) ys \<Longrightarrow> xs = ys"
proof (induction xs arbitrary: ys)
  case Nil
  then show ?case by simp
next
  case (Cons x xs)
  then obtain y ys' where ys: "ys = y # ys'" by (cases ys) auto
  with Cons.prems have "CHARS ! x = CHARS ! y" "x < 54" "y < 54" by simp_all
  then have "x = y" by (rule_tac nth_CHARS_inj)
  moreover have "xs = ys'" using Cons ys by simp
  ultimately show ?case using ys by simp
qed

lemma indexToName_injective: "indexToName i = indexToName j \<Longrightarrow> i = j"
  using map_CHARS_inj [of "name_digits i" "name_digits j"] name_digits_inj
  by (simp add: indexToName_digits name_digits_bound)


subsection \<open>The scoped name generator\<close>

definition RESERVED_WORDS :: "string list" where
  "RESERVED_WORDS =
    [''break'', ''case'', ''catch'', ''continue'', ''debugger'', ''default'', ''delete'', ''do'',
     ''else'', ''finally'', ''for'', ''function'', ''if'', ''in'', ''instanceof'', ''new'',
     ''return'', ''switch'', ''this'', ''throw'', ''try'', ''typeof'', ''var'', ''void'',
     ''while'', ''with'', ''class'', ''const'', ''enum'', ''export'', ''extends'', ''import'',
     ''super'', ''implements'', ''interface'', ''let'', ''package'', ''private'', ''protected'',
     ''public'', ''static'', ''yield'', ''null'', ''true'', ''false'', ''undefined'', ''NaN'',
     ''Infinity'', ''eval'', ''arguments'']"

lemma finite_indices_of_names: "finite {j. indexToName j \<in> set names}"
proof -
  have "inj indexToName" by (rule injI) (rule indexToName_injective)
  then have "finite (indexToName -` set names)" by (intro finite_vimageI) simp_all
  then show ?thesis by (simp add: vimage_def)
qed

text \<open>
  \<open>createScopedNameGenerator(reserved)\<close> returns a closure over the counter \<open>index\<close>;
  \<open>nextName\<close> is one call of it, taking the counter and returning the name with the
  advanced counter.  Its \<open>do ... while\<close> loop ends because only finitely many indices
  have a reserved name.
\<close>

function nextName :: "string list \<Rightarrow> nat \<Rightarrow> string \<times> nat" where
  "nextName reserved index =
     (let name = indexToName index;
          index' = index + 1
      in if name \<in> set RESERVED_WORDS \<or> name \<in> set reserved then nextName reserved index'
         else (name, index'))"
  by pat_completeness auto
termination
proof (relation "measure (\<lambda>(reserved, index).
         card {j. index \<le> j \<and> indexToName j \<in> set (RESERVED_WORDS @ reserved)})", goal_cases)
  case 1
  show ?case by simp
next
  case (2 reserved index name index')
  let ?A = "\<lambda>i. {j. i \<le> j \<and> indexToName j \<in> set (RESERVED_WORDS @ reserved)}"
  have fin: "finite (?A index)"
    using finite_indices_of_names [of "RESERVED_WORDS @ reserved"] by simp
  have "index \<in> ?A index" using 2 by auto
  moreover have "index \<notin> ?A index'" using 2 by simp
  moreover have "?A index' \<subseteq> ?A index" using 2 by auto
  ultimately have "?A index' \<subset> ?A index" by blast
  then have "card (?A index') < card (?A index)" using fin by (rule psubset_card_mono [rotated])
  then show ?case by simp
qed

declare nextName.simps [simp del]

text \<open>The loop \<open>for (const {binding} of sortedBindings) renameMap.set(binding, nextName())\<close>
  of \<open>mangleIdentifiers\<close>, for one scope: the bindings paired with their new names.\<close>

fun assignNames :: "string list \<Rightarrow> nat \<Rightarrow> 'b list \<Rightarrow> ('b \<times> string) list" where
  "assignNames reserved index [] = []"
| "assignNames reserved index (b # bs) =
     (let (newName, index') = nextName reserved index
      in (b, newName) # assignNames reserved index' bs)"

lemma nextName_index:
  "nextName reserved i = (n, i') \<Longrightarrow>
   \<exists>j. i \<le> j \<and> i' = j + 1 \<and> n = indexToName j \<and> n \<notin> set RESERVED_WORDS \<and> n \<notin> set reserved"
proof (induction reserved i rule: nextName.induct)
  case (1 reserved index)
  show ?case
  proof (cases "indexToName index \<in> set RESERVED_WORDS \<or> indexToName index \<in> set reserved")
    case True
    then have "nextName reserved (index + 1) = (n, i')"
      using "1.prems" by (subst (asm) nextName.simps) (simp add: Let_def)
    from "1.IH" [OF refl refl True this] show ?thesis
      by (metis Suc_eq_plus1 Suc_leD)
  next
    case False
    then have "n = indexToName index" "i' = index + 1"
      using "1.prems" by (subst (asm) nextName.simps, simp add: Let_def)+
    then show ?thesis using False by auto
  qed
qed

lemma assignNames_indices:
  "(b, n) \<in> set (assignNames reserved i bs) \<Longrightarrow>
   \<exists>j. i \<le> j \<and> n = indexToName j \<and> n \<notin> set RESERVED_WORDS \<and> n \<notin> set reserved"
proof (induction bs arbitrary: i)
  case Nil
  then show ?case by simp
next
  case (Cons a bs)
  obtain m i' where nx: "nextName reserved i = (m, i')" by (cases "nextName reserved i")
  from nextName_index [OF nx] obtain j where
    j: "i \<le> j" "i' = j + 1" "m = indexToName j" "m \<notin> set RESERVED_WORDS" "m \<notin> set reserved"
    by blast
  from Cons.prems nx have "(b, n) = (a, m) \<or> (b, n) \<in> set (assignNames reserved i' bs)"
    by simp
  then show ?case
  proof
    assume "(b, n) = (a, m)"
    then show ?thesis using j by auto
  next
    assume "(b, n) \<in> set (assignNames reserved i' bs)"
    from Cons.IH [OF this] obtain k where "i' \<le> k" "n = indexToName k"
      "n \<notin> set RESERVED_WORDS" "n \<notin> set reserved" by blast
    then show ?thesis using j by (intro exI [of _ k]) simp
  qed
qed

lemma assignNames_distinct: "distinct (map snd (assignNames reserved i bs))"
proof (induction bs arbitrary: i)
  case Nil
  then show ?case by simp
next
  case (Cons a bs)
  obtain m i' where nx: "nextName reserved i = (m, i')" by (cases "nextName reserved i")
  from nextName_index [OF nx] obtain j where
    j: "i \<le> j" "i' = j + 1" "m = indexToName j" by blast
  have "m \<notin> snd ` set (assignNames reserved i' bs)"
  proof
    assume "m \<in> snd ` set (assignNames reserved i' bs)"
    then obtain b where "(b, m) \<in> set (assignNames reserved i' bs)" by auto
    from assignNames_indices [OF this] obtain k where "i' \<le> k" "m = indexToName k" by blast
    with j have "indexToName j = indexToName k" "j < k" by simp_all
    then show False using indexToName_injective by blast
  qed
  then show ?case using nx Cons.IH [of i'] by simp
qed

lemma assignNames_map_fst: "map fst (assignNames reserved i bs) = bs"
  by (induction bs arbitrary: i) (auto split: prod.splits)


subsection \<open>Which names are produced\<close>

text \<open>\<open>isValidIdentifier\<close> of the literal hoister: the pattern
  \<open>/^[a-zA-Z_$][a-zA-Z0-9_$]*$/\<close>.\<close>

definition is_identifier_start :: "char \<Rightarrow> bool" where
  "is_identifier_start c =
     (let k = (of_char c :: nat)
      in (97 \<le> k \<and> k \<le> 122) \<or> (65 \<le> k \<and> k \<le> 90) \<or> c = CHR ''_'' \<or> c = CHR ''$'')"

definition is_identifier_part :: "char \<Rightarrow> bool" where
  "is_identifier_part c =
     (let k = (of_char c :: nat)
      in (97 \<le> k \<and> k \<le> 122) \<or> (65 \<le> k \<and> k \<le> 90) \<or> (48 \<le> k \<and> k \<le> 57) \<or>
         c = CHR ''_'' \<or> c = CHR ''$'')"

definition isValidIdentifier :: "string \<Rightarrow> bool" where
  "isValidIdentifier name =
     (case name of [] \<Rightarrow> False | c # cs \<Rightarrow> is_identifier_start c \<and> list_all is_identifier_part cs)"

lemma CHARS_start: "list_all is_identifier_start CHARS"
  by (simp add: CHARS_def is_identifier_start_def)

lemma start_part: "is_identifier_start c \<Longrightarrow> is_identifier_part c"
  by (auto simp: is_identifier_start_def is_identifier_part_def Let_def)

lemma over_CHARS_valid:
  assumes "s \<noteq> []" and "set s \<subseteq> set CHARS"
  shows "isValidIdentifier s"
proof -
  from assms(1) obtain c cs where s: "s = c # cs" by (cases s) auto
  have st: "\<And>x. x \<in> set s \<Longrightarrow> is_identifier_start x"
    using CHARS_start assms(2) by (auto simp: list_all_iff)
  have "is_identifier_start c" using st s by simp
  moreover have "list_all is_identifier_part cs"
    unfolding list_all_iff using st s start_part by simp
  ultimately show ?thesis by (simp add: isValidIdentifier_def s)
qed

lemma digits_of_string:
  "set s \<subseteq> set CHARS \<Longrightarrow> \<exists>ds. (\<forall>d\<in>set ds. d < 54) \<and> map ((!) CHARS) ds = s"
proof (induction s)
  case Nil
  have "(\<forall>d\<in>set ([]::nat list). d < 54) \<and> map ((!) CHARS) [] = []" by simp
  then show ?case by (rule exI)
next
  case (Cons c s)
  from Cons.prems have sub: "set s \<subseteq> set CHARS" and c: "c \<in> set CHARS" by simp_all
  from Cons.IH [OF sub] obtain ds where ds: "\<forall>d\<in>set ds. d < 54" "map ((!) CHARS) ds = s"
    by blast
  from c obtain i where i: "i < length CHARS" "CHARS ! i = c"
    by (meson in_set_conv_nth)
  have "(\<forall>d\<in>set (i # ds). d < 54) \<and> map ((!) CHARS) (i # ds) = c # s"
    using ds i by (simp add: length_CHARS)
  then show ?case by (rule exI)
qed

lemma indexToName_over_CHARS: "indexToName i \<noteq> [] \<and> set (indexToName i) \<subseteq> set CHARS"
proof -
  have "\<And>d. d \<in> set (name_digits i) \<Longrightarrow> CHARS ! d \<in> set CHARS"
    using name_digits_bound by (simp add: length_CHARS)
  then show ?thesis
    by (auto simp: indexToName_digits name_digits_nonempty)
qed

lemma indexToName_range: "range indexToName = {s. s \<noteq> [] \<and> set s \<subseteq> set CHARS}"
proof (intro equalityI subsetI)
  fix s assume "s \<in> range indexToName"
  then show "s \<in> {s. s \<noteq> [] \<and> set s \<subseteq> set CHARS}"
    using indexToName_over_CHARS by auto
next
  fix s assume "s \<in> {s. s \<noteq> [] \<and> set s \<subseteq> set CHARS}"
  then have s: "s \<noteq> []" "set s \<subseteq> set CHARS" by simp_all
  from digits_of_string [OF s(2)] obtain ds where
    ds: "\<forall>d\<in>set ds. d < 54" "map ((!) CHARS) ds = s" by blast
  with s have "ds \<noteq> []" by auto
  then have "name_digits (digits_code ds - 1) = ds" using ds(1) by (rule name_digits_of_code)
  then have "indexToName (digits_code ds - 1) = s" by (simp add: indexToName_digits ds(2))
  then show "s \<in> range indexToName" by (metis rangeI)
qed

lemma indexToName_single: "i < 54 \<Longrightarrow> indexToName i = [CHARS ! i]"
  by (simp add: indexToName_def length_CHARS charAt_def)

lemma indexToName_first: "map indexToName [0..<54] = map (\<lambda>c. [c]) CHARS"
  by (rule nth_equalityI) (simp_all add: length_CHARS indexToName_single)







section \<open>The identifier mangler: scopes, reserved names and renaming\<close>

text \<open>
  \<open>mangleIdentifiers\<close> reads the scope data that Babel attaches to the re-parsed AST and
  changes nothing of the AST but the \<open>name\<close> of Identifier nodes.  The model takes that
  data as its input:
  \<^item> a scope is its \<open>uid\<close> and its \<open>parent\<close>; two scopes are the same object exactly when
    their uids are equal;
  \<^item> the bindings of the scopes are a table from a scope's uid to the entries of its
    \<open>bindings\<close> object;
  \<^item> the AST is the list of the names of its Identifier nodes, in traversal order, and an
    Identifier node is its position in that list;
  \<^item> the node of a path is an Identifier, an AssignmentExpression whose \<open>left\<close> is an
    Identifier or is not one, or any other node;
  \<^item> a binding has its declaring Identifier, its reference paths, its constant violations
    and its scope.  Distinct bindings have distinct declaring identifiers, so the
    \<open>Map\<close> keyed by binding objects is an association list keyed by these records,
    updated in place or extended at the end as a \<open>Map\<close> is.
\<close>

datatype BabelScope = BabelScope (uid: nat) (parent: "BabelScope option")

datatype PathNode = IdentifierNode nat | AssignmentExpression "nat option" | OtherNode

record NodePath =
  pathNode :: PathNode
  pathScope :: BabelScope

record BabelBinding =
  bindingIdentifier :: nat
  referencePaths :: "NodePath list"
  constantViolations :: "NodePath list"
  bindingScope :: BabelScope

type_synonym bindings_table = "nat \<Rightarrow> (string \<times> BabelBinding) list"

type_synonym rename_map = "(BabelBinding \<times> string) list"

text \<open>\<open>isInsideScope(path, targetScope)\<close>: the walk from \<open>path.scope\<close> up the parents.\<close>

fun insideChain :: "BabelScope option \<Rightarrow> BabelScope \<Rightarrow> bool" where
  "insideChain None targetScope = False"
| "insideChain (Some (BabelScope u p)) targetScope =
     (if u = uid targetScope then True else insideChain p targetScope)"

definition isInsideScope :: "NodePath \<Rightarrow> BabelScope \<Rightarrow> bool" where
  "isInsideScope path targetScope = insideChain (Some (pathScope path)) targetScope"

text \<open>\<open>getReservedNamesForScope(scope, renameMap)\<close>: the body of the inner \<open>for\<close> loop
  for one binding, the walk up the scope chain from \<open>scope.parent\<close>, and the function.
  The \<open>Set\<close> of reserved names is a list without repetitions.\<close>

definition reserveBinding ::
  "BabelScope \<Rightarrow> rename_map \<Rightarrow> BabelBinding \<Rightarrow> string list \<Rightarrow> string list" where
  "reserveBinding scope renameMap binding reserved =
     (case map_of renameMap binding of
        None \<Rightarrow> reserved
      | Some newName \<Rightarrow>
          let isReferencedInScope =
                (list_ex (\<lambda>refPath. isInsideScope refPath scope) (referencePaths binding) \<or>
                 list_ex (\<lambda>violationPath. isInsideScope violationPath scope)
                   (constantViolations binding))
          in if isReferencedInScope then List.insert newName reserved else reserved)"

fun reservedWalk ::
  "bindings_table \<Rightarrow> BabelScope \<Rightarrow> rename_map \<Rightarrow> BabelScope option \<Rightarrow> string list \<Rightarrow> string list"
  where
  "reservedWalk bindings scope renameMap None reserved = reserved"
| "reservedWalk bindings scope renameMap (Some (BabelScope u p)) reserved =
     reservedWalk bindings scope renameMap p
       (fold (reserveBinding scope renameMap) (map snd (bindings u)) reserved)"

definition getReservedNamesForScope ::
  "bindings_table \<Rightarrow> BabelScope \<Rightarrow> rename_map \<Rightarrow> string list" where
  "getReservedNamesForScope bindings scope renameMap =
     reservedWalk bindings scope renameMap (parent scope) []"

text \<open>
  The reserved set in the words of the specification: \<open>a\<close> is an ancestor of \<open>s\<close> when it
  is reached from \<open>s\<close> by one or more parent steps; a path is lexically inside \<open>s\<close> when
  its scope is \<open>s\<close> or has \<open>s\<close> as an ancestor; a name is reserved when an ancestor of
  \<open>s\<close> has a binding renamed to it with a reference or a write lexically inside \<open>s\<close>.
\<close>

inductive ancestor :: "BabelScope \<Rightarrow> BabelScope \<Rightarrow> bool" where
  parent: "parent s = Some a \<Longrightarrow> ancestor a s"
| further: "parent s = Some p \<Longrightarrow> ancestor a p \<Longrightarrow> ancestor a s"

definition lexicallyInside :: "NodePath \<Rightarrow> BabelScope \<Rightarrow> bool" where
  "lexicallyInside path s =
     (uid (pathScope path) = uid s \<or> (\<exists>a. ancestor a (pathScope path) \<and> uid a = uid s))"

definition spec_reserved :: "bindings_table \<Rightarrow> BabelScope \<Rightarrow> rename_map \<Rightarrow> string set" where
  "spec_reserved bindings s renameMap =
     {n. \<exists>a b. ancestor a s \<and> b \<in> snd ` set (bindings (uid a)) \<and> map_of renameMap b = Some n \<and>
           (\<exists>path \<in> set (referencePaths b) \<union> set (constantViolations b). lexicallyInside path s)}"

text \<open>
  \<open>mangleIdentifiers(ast)\<close>.  The \<open>Scope\<close> visitor is entered once per scope, in
  traversal order: \<open>scopes\<close> is that sequence.  \<open>scopeInfoOf\<close> is the body of the visitor,
  \<open>assignScopes\<close> the loop that assigns the new names scope by scope, \<open>applyRenames\<close> the
  loop over \<open>renameMap\<close> that writes the names into the AST and collects the
  \<open>__niu_\<close> placeholders, and \<open>batchRename\<close> the final traversal of all Identifier nodes.
\<close>

record BindingInfo =
  infoName :: string
  binding :: BabelBinding
  references :: int

record ScopeInfo =
  infoScope :: BabelScope
  infoBindings :: "BindingInfo list"

definition scopeInfoOf :: "bindings_table \<Rightarrow> BabelScope \<Rightarrow> ScopeInfo option" where
  "scopeInfoOf bindings babelScope =
     (let infos =
            map (\<lambda>(name, b).
                   \<lparr>infoName = name, binding = b,
                    references = 1 + int (length (referencePaths b))
                                 + int (length (constantViolations b))\<rparr>)
              (filter (\<lambda>(name, b). uid (bindingScope b) = uid babelScope)
                 (bindings (uid babelScope)))
      in if length infos > 0 then Some \<lparr>infoScope = babelScope, infoBindings = infos\<rparr> else None)"

definition scopeInfos :: "bindings_table \<Rightarrow> BabelScope list \<Rightarrow> ScopeInfo list" where
  "scopeInfos bindings scopes = List.map_filter (scopeInfoOf bindings) scopes"

fun assignScopes :: "bindings_table \<Rightarrow> ScopeInfo list \<Rightarrow> rename_map \<Rightarrow> rename_map" where
  "assignScopes bindings [] renameMap = renameMap"
| "assignScopes bindings (scopeInfo # rest) renameMap =
     (let reserved = getReservedNamesForScope bindings (infoScope scopeInfo) renameMap;
          sortedBindings = sort_key (\<lambda>info. - references info) (infoBindings scopeInfo);
          named = assignNames reserved 0 sortedBindings
      in assignScopes bindings rest
           (fold (\<lambda>(info, newName) m. AList.update (binding info) newName m) named renameMap))"

text \<open>\<open>s.startsWith(p)\<close>, and the name of the \<open>i\<close>-th Identifier node (a binding's
  identifier is always a node of the AST; outside it the model reads the empty name).\<close>

definition startsWith :: "string \<Rightarrow> string \<Rightarrow> bool" where
  "startsWith s p = (take (length p) s = p)"

definition nameOf :: "string list \<Rightarrow> nat \<Rightarrow> string" where
  "nameOf ast i = (if i < length ast then ast ! i else [])"

definition renameReference :: "string \<Rightarrow> NodePath \<Rightarrow> string list \<Rightarrow> string list" where
  "renameReference newName refPath ast =
     (case pathNode refPath of IdentifierNode i \<Rightarrow> ast[i := newName] | _ \<Rightarrow> ast)"

definition renameViolation :: "string \<Rightarrow> NodePath \<Rightarrow> string list \<Rightarrow> string list" where
  "renameViolation newName violationPath ast =
     (case pathNode violationPath of
        IdentifierNode i \<Rightarrow> ast[i := newName]
      | AssignmentExpression (Some i) \<Rightarrow> ast[i := newName]
      | _ \<Rightarrow> ast)"

definition applyBinding :: "BabelBinding \<Rightarrow> string \<Rightarrow> string list \<Rightarrow> string list" where
  "applyBinding b newName ast =
     fold (renameViolation newName) (constantViolations b)
       (fold (renameReference newName) (referencePaths b)
          (ast[bindingIdentifier b := newName]))"

fun applyRenames ::
  "rename_map \<Rightarrow> string list \<Rightarrow> (string \<times> string) list \<Rightarrow> string list \<times> (string \<times> string) list"
  where
  "applyRenames [] ast placeholderRenames = (ast, placeholderRenames)"
| "applyRenames ((b, newName) # rest) ast placeholderRenames =
     (let oldName = nameOf ast (bindingIdentifier b)
      in applyRenames rest (applyBinding b newName ast)
           (if startsWith oldName ''__niu_''
            then AList.update oldName newName placeholderRenames
            else placeholderRenames))"

definition batchRename :: "(string \<times> string) list \<Rightarrow> string list \<Rightarrow> string list" where
  "batchRename placeholderRenames ast =
     (if length placeholderRenames > 0
      then map (\<lambda>name. case map_of placeholderRenames name of
                          Some newName \<Rightarrow> newName | None \<Rightarrow> name) ast
      else ast)"

definition mangleIdentifiers ::
  "bindings_table \<Rightarrow> BabelScope list \<Rightarrow> string list \<Rightarrow> string list \<times> rename_map" where
  "mangleIdentifiers bindings scopes ast =
     (let renameMap = assignScopes bindings (scopeInfos bindings scopes) [];
          (ast', placeholderRenames) = applyRenames renameMap ast []
      in (batchRename placeholderRenames ast', renameMap))"

text \<open>The Identifier nodes that are renamed on behalf of a binding: its declaring
  identifier, its Identifier references and its Identifier or assignment-target writes.\<close>

definition renamedNodes :: "BabelBinding \<Rightarrow> nat set" where
  "renamedNodes b =
     {bindingIdentifier b} \<union>
     {i. \<exists>path\<in>set (referencePaths b). pathNode path = IdentifierNode i} \<union>
     {i. \<exists>path\<in>set (constantViolations b).
            pathNode path = IdentifierNode i \<or> pathNode path = AssignmentExpression (Some i)}"

subsection \<open>Example inputs\<close>

text \<open>
  The program scope alone with no binding (the program \<open>__niu_x;\<close>); the program
  \<open>const __niu_global_0__=localStorage;__niu_global_0__["a"];__niu_global_0__["b"]\<close> whose
  last identifier is not among the binding's reference paths; and a program scope with
  bindings \<open>x\<close> and \<open>y\<close> around a function scope that refers to \<open>x\<close> only.
\<close>

definition programScope :: BabelScope where
  "programScope = BabelScope 0 None"

definition noBindings :: bindings_table where
  "noBindings = (\<lambda>u. [])"

definition hoistedBinding :: BabelBinding where
  "hoistedBinding =
     \<lparr>bindingIdentifier = 0,
      referencePaths = [\<lparr>pathNode = IdentifierNode 2, pathScope = programScope\<rparr>],
      constantViolations = [], bindingScope = programScope\<rparr>"

definition hoistedTable :: bindings_table where
  "hoistedTable = (\<lambda>u. if u = 0 then [(''__niu_global_0__'', hoistedBinding)] else [])"

definition hoistedAst :: "string list" where
  "hoistedAst = [''__niu_global_0__'', ''localStorage'', ''__niu_global_0__'', ''__niu_global_0__'']"

definition innerScope :: BabelScope where
  "innerScope = BabelScope 1 (Some programScope)"

definition bindingX :: BabelBinding where
  "bindingX =
     \<lparr>bindingIdentifier = 0,
      referencePaths = [\<lparr>pathNode = IdentifierNode 2, pathScope = innerScope\<rparr>],
      constantViolations = [], bindingScope = programScope\<rparr>"

definition bindingY :: BabelBinding where
  "bindingY =
     \<lparr>bindingIdentifier = 1,
      referencePaths = [\<lparr>pathNode = IdentifierNode 3, pathScope = programScope\<rparr>],
      constantViolations = [], bindingScope = programScope\<rparr>"

definition nestedTable :: bindings_table where
  "nestedTable = (\<lambda>u. if u = 0 then [(''x'', bindingX), (''y'', bindingY)] else [])"

subsection \<open>The reserved names of a scope\<close>

lemma insideChain_iff:
  "insideChain c t \<longleftrightarrow> (\<exists>q. c = Some q \<and> (uid q = uid t \<or> (\<exists>a. ancestor a q \<and> uid a = uid t)))"
proof (induction c t rule: insideChain.induct)
  case (1 t)
  then show ?case by simp
next
  case (2 u p t)
  have anc: "ancestor a (BabelScope u p) \<longleftrightarrow> (\<exists>q. p = Some q \<and> (a = q \<or> ancestor a q))" for a
    by (auto elim: ancestor.cases intro: ancestor.intros)
  show ?case
  proof (cases "u = uid t")
    case True
    then show ?thesis by simp
  next
    case False
    then show ?thesis using 2 by (auto simp: anc)
  qed
qed

lemma isInsideScope_iff: "isInsideScope path s \<longleftrightarrow> lexicallyInside path s"
  by (simp add: isInsideScope_def lexicallyInside_def insideChain_iff)

definition reservedBy :: "BabelScope \<Rightarrow> rename_map \<Rightarrow> BabelBinding \<Rightarrow> string set" where
  "reservedBy s renameMap b =
     {n. map_of renameMap b = Some n \<and>
         (\<exists>path \<in> set (referencePaths b) \<union> set (constantViolations b). lexicallyInside path s)}"

lemma set_reserveBinding:
  "set (reserveBinding s rm b reserved) = set reserved \<union> reservedBy s rm b"
  by (auto simp: reserveBinding_def reservedBy_def list_ex_iff isInsideScope_iff Let_def
           split: option.splits)

lemma set_fold_reserveBinding:
  "set (fold (reserveBinding s rm) bs reserved) = set reserved \<union> (\<Union>b\<in>set bs. reservedBy s rm b)"
  by (induction bs arbitrary: reserved) (auto simp: set_reserveBinding)

fun chain :: "BabelScope option \<Rightarrow> BabelScope list" where
  "chain None = []"
| "chain (Some (BabelScope u p)) = BabelScope u p # chain p"

lemma ancestor_chain: "ancestor a s \<longleftrightarrow> a \<in> set (chain (parent s))"
proof
  assume "ancestor a s"
  then show "a \<in> set (chain (parent s))"
  proof (induction rule: ancestor.induct)
    case (parent s a)
    then show ?case by (cases a) simp
  next
    case (further s p a)
    then show ?case by (cases p) simp
  qed
next
  have "a \<in> set (chain c) \<Longrightarrow> c = parent s \<Longrightarrow> ancestor a s" for c s
  proof (induction c arbitrary: s rule: chain.induct)
    case 1
    then show ?case by simp
  next
    case (2 u p)
    from "2.prems"(2) have ps: "parent s = Some (BabelScope u p)" by (rule sym)
    from "2.prems"(1) have "a \<in> set (chain (Some (BabelScope u p)))" unfolding ps .
    then have "a = BabelScope u p \<or> a \<in> set (chain p)" by simp
    then show ?case
    proof
      assume "a = BabelScope u p"
      with ps show ?thesis by (simp add: ancestor.parent)
    next
      assume "a \<in> set (chain p)"
      then have "ancestor a (BabelScope u p)" using "2.IH" [of "BabelScope u p"] by simp
      with ps show ?thesis by (rule ancestor.further)
    qed
  qed
  then show "a \<in> set (chain (parent s)) \<Longrightarrow> ancestor a s" by blast
qed

lemma set_reservedWalk:
  "set (reservedWalk bindings s rm c reserved) =
     set reserved \<union> (\<Union>a\<in>set (chain c). \<Union>b\<in>snd ` set (bindings (uid a)). reservedBy s rm b)"
  by (induction bindings s rm c reserved rule: reservedWalk.induct)
     (auto simp: set_fold_reserveBinding)

text \<open>
  Claim C5.  When \<open>mangleIdentifiers\<close> processes a scope \<open>s\<close>, the names it treats as
  reserved are exactly the names \<open>n\<close> such that some ancestor scope of \<open>s\<close> contains a
  binding already renamed to \<open>n\<close> that has at least one reference or write lexically
  inside \<open>s\<close> or inside a descendant of \<open>s\<close>.
\<close>

theorem reserved_names_exact:
  "set (getReservedNamesForScope bindings s renameMap) = spec_reserved bindings s renameMap"
  unfolding getReservedNamesForScope_def set_reservedWalk spec_reserved_def reservedBy_def
    ancestor_chain
  by auto

text \<open>With \<open>x\<close> renamed to \<open>e\<close> and \<open>y\<close> to \<open>t\<close> in the program scope, the function
  scope that refers to \<open>x\<close> reserves \<open>e\<close> only.\<close>

theorem reserved_names_witness:
  "getReservedNamesForScope nestedTable innerScope [(bindingX, ''e''), (bindingY, ''t'')] = [''e''] \<and>
   spec_reserved nestedTable innerScope [(bindingX, ''e''), (bindingY, ''t'')] = {''e''}"
proof -
  have a: "getReservedNamesForScope nestedTable innerScope [(bindingX, ''e''), (bindingY, ''t'')]
           = [''e'']"
    by (simp add: getReservedNamesForScope_def reserveBinding_def isInsideScope_def innerScope_def
        programScope_def nestedTable_def bindingX_def bindingY_def)
  with reserved_names_exact [of nestedTable innerScope "[(bindingX, ''e''), (bindingY, ''t'')]"]
  show ?thesis by simp
qed

subsection \<open>Placeholders are renamed away\<close>

lemma length_renameReference [simp]: "length (renameReference n p ast) = length ast"
  by (simp add: renameReference_def split: PathNode.splits)

lemma length_renameViolation [simp]: "length (renameViolation n p ast) = length ast"
  by (simp add: renameViolation_def split: PathNode.splits option.splits)

lemma length_fold_renameReference [simp]: "length (fold (renameReference n) ps ast) = length ast"
  by (induction ps arbitrary: ast) simp_all

lemma length_fold_renameViolation [simp]: "length (fold (renameViolation n) ps ast) = length ast"
  by (induction ps arbitrary: ast) simp_all

lemma length_applyBinding [simp]: "length (applyBinding b n ast) = length ast"
  by (simp add: applyBinding_def)

lemma fold_renameReference_untouched:
  "\<forall>path\<in>set ps. pathNode path \<noteq> IdentifierNode k \<Longrightarrow>
   fold (renameReference n) ps ast ! k = ast ! k"
proof (induction ps arbitrary: ast)
  case Nil
  then show ?case by simp
next
  case (Cons p ps)
  then have "renameReference n p ast ! k = ast ! k"
    by (auto simp: renameReference_def split: PathNode.splits)
  with Cons show ?case by simp
qed

lemma fold_renameViolation_untouched:
  "\<forall>path\<in>set ps. pathNode path \<noteq> IdentifierNode k \<and>
                   pathNode path \<noteq> AssignmentExpression (Some k) \<Longrightarrow>
   fold (renameViolation n) ps ast ! k = ast ! k"
proof (induction ps arbitrary: ast)
  case Nil
  then show ?case by simp
next
  case (Cons p ps)
  then have "renameViolation n p ast ! k = ast ! k"
    by (auto simp: renameViolation_def split: PathNode.splits option.splits)
  with Cons show ?case by simp
qed

lemma applyBinding_untouched:
  assumes "k \<notin> renamedNodes b"
  shows "applyBinding b n ast ! k = ast ! k"
proof -
  from assms have a: "k \<noteq> bindingIdentifier b"
    and r: "\<forall>path\<in>set (referencePaths b). pathNode path \<noteq> IdentifierNode k"
    and v: "\<forall>path\<in>set (constantViolations b). pathNode path \<noteq> IdentifierNode k \<and>
                   pathNode path \<noteq> AssignmentExpression (Some k)"
    by (auto simp: renamedNodes_def)
  show ?thesis
    unfolding applyBinding_def
    by (simp add: fold_renameViolation_untouched [OF v] fold_renameReference_untouched [OF r]
                  a [symmetric])
qed

lemma applyRenames_keys_mono:
  "fst ` set pr \<subseteq> fst ` set (snd (applyRenames rm ast pr))"
proof (induction rm arbitrary: ast pr)
  case Nil
  then show ?case by simp
next
  case (Cons e rm)
  obtain b n where e: "e = (b, n)" by (cases e)
  let ?pr = "if startsWith (nameOf ast (bindingIdentifier b)) ''__niu_''
             then AList.update (nameOf ast (bindingIdentifier b)) n pr else pr"
  have "fst ` set pr \<subseteq> fst ` set ?pr" by (auto simp: dom_update)
  also have "\<dots> \<subseteq> fst ` set (snd (applyRenames rm (applyBinding b n ast) ?pr))"
    by (rule Cons.IH)
  finally show ?case by (simp add: e Let_def)
qed

lemma set_update_subset: "set (AList.update k v al) \<subseteq> insert (k, v) (set al)"
  by (induction al) auto

lemma applyRenames_values:
  "snd ` set (snd (applyRenames rm ast pr)) \<subseteq> snd ` set pr \<union> snd ` set rm"
proof (induction rm arbitrary: ast pr)
  case Nil
  then show ?case by simp
next
  case (Cons e rm)
  obtain b n where e: "e = (b, n)" by (cases e)
  let ?pr = "if startsWith (nameOf ast (bindingIdentifier b)) ''__niu_''
             then AList.update (nameOf ast (bindingIdentifier b)) n pr else pr"
  have eq: "snd (applyRenames (e # rm) ast pr) = snd (applyRenames rm (applyBinding b n ast) ?pr)"
    by (simp add: e Let_def)
  have "snd ` set ?pr \<subseteq> insert n (snd ` set pr)"
    using set_update_subset [of "nameOf ast (bindingIdentifier b)" n pr] by auto
  moreover have "snd ` set (snd (applyRenames rm (applyBinding b n ast) ?pr))
                 \<subseteq> snd ` set ?pr \<union> snd ` set rm"
    by (rule Cons.IH)
  ultimately have "snd ` set (snd (applyRenames rm (applyBinding b n ast) ?pr))
                 \<subseteq> insert n (snd ` set pr) \<union> snd ` set rm" by blast
  then show ?case unfolding eq by (auto simp: e)
qed

lemma applyRenames_records_placeholder:
  assumes "(b, n) \<in> set rm"
    and "\<forall>(b', n')\<in>set rm. b' \<noteq> b \<longrightarrow> bindingIdentifier b \<notin> renamedNodes b'"
    and "bindingIdentifier b < length ast"
    and "startsWith (ast ! bindingIdentifier b) ''__niu_''"
  shows "ast ! bindingIdentifier b \<in> fst ` set (snd (applyRenames rm ast pr))"
  using assms
proof (induction rm arbitrary: ast pr)
  case Nil
  then show ?case by simp
next
  case (Cons e rm)
  obtain b' n' where e: "e = (b', n')" by (cases e)
  let ?p = "ast ! bindingIdentifier b"
  let ?pr = "if startsWith (nameOf ast (bindingIdentifier b')) ''__niu_''
             then AList.update (nameOf ast (bindingIdentifier b')) n' pr else pr"
  show ?case
  proof (cases "b' = b")
    case True
    with Cons.prems have "?pr = AList.update ?p n' pr" by (simp add: nameOf_def)
    then have "?p \<in> fst ` set ?pr" by (simp add: dom_update)
    then have "?p \<in> fst ` set (snd (applyRenames rm (applyBinding b' n' ast) ?pr))"
      using applyRenames_keys_mono by blast
    then show ?thesis by (simp add: e Let_def)
  next
    case False
    with Cons.prems(2) have nt: "bindingIdentifier b \<notin> renamedNodes b'" by (auto simp: e)
    have same: "applyBinding b' n' ast ! bindingIdentifier b = ?p"
      by (rule applyBinding_untouched [OF nt])
    from False Cons.prems(1) have mem: "(b, n) \<in> set rm" by (auto simp: e)
    from Cons.prems(2) have wf: "\<forall>(b', n')\<in>set rm. b' \<noteq> b \<longrightarrow> bindingIdentifier b \<notin> renamedNodes b'"
      by auto
    have "applyBinding b' n' ast ! bindingIdentifier b
            \<in> fst ` set (snd (applyRenames rm (applyBinding b' n' ast) ?pr))"
      using Cons.prems(3,4) by (intro Cons.IH [OF mem wf]) (simp_all add: same)
    then show ?thesis by (simp add: e Let_def same)
  qed
qed

lemma batchRename_sweeps:
  assumes "p \<in> fst ` set pr" and "p \<notin> snd ` set pr"
  shows "p \<notin> set (batchRename pr ast)"
proof
  assume "p \<in> set (batchRename pr ast)"
  moreover from assms(1) have "length pr > 0" by auto
  ultimately obtain y where y: "y \<in> set ast"
      "p = (case map_of pr y of Some newName \<Rightarrow> newName | None \<Rightarrow> y)"
    by (auto simp: batchRename_def)
  show False
  proof (cases "map_of pr y")
    case None
    with y have "p = y" by simp
    with None assms(1) show False by (simp add: map_of_eq_None_iff)
  next
    case (Some m)
    with y have "p = m" by simp
    with Some have "(y, p) \<in> set pr" by (simp add: map_of_SomeD)
    then have "p \<in> snd ` set pr" by force
    with assms(2) show False by simp
  qed
qed

lemma fold_update_keys:
  "fst ` set (fold (\<lambda>(info, newName) m. AList.update (binding info) newName m) named rm)
   = fst ` set rm \<union> binding ` fst ` set named"
proof (induction named arbitrary: rm)
  case Nil
  then show ?case by simp
next
  case (Cons e named)
  obtain info n where e: "e = (info, n)" by (cases e)
  show ?case by (auto simp: e Cons.IH dom_update)
qed

lemma fold_update_values:
  "snd ` set (fold (\<lambda>(info, newName) m. AList.update (binding info) newName m) named rm)
   \<subseteq> snd ` set rm \<union> snd ` set named"
proof (induction named arbitrary: rm)
  case Nil
  then show ?case by simp
next
  case (Cons e named)
  obtain info n where e: "e = (info, n)" by (cases e)
  have "snd ` set (AList.update (binding info) n rm) \<subseteq> insert n (snd ` set rm)"
    using set_update_subset [of "binding info" n rm] by auto
  with Cons.IH [of "AList.update (binding info) n rm"] show ?case
    by (simp add: e) blast
qed

lemma assignNames_generated: "snd ` set (assignNames reserved i bs) \<subseteq> range indexToName"
  using assignNames_indices by fastforce

lemma assignScopes_keys:
  "fst ` set (assignScopes bindings sis rm)
   = fst ` set rm \<union> (\<Union>si\<in>set sis. binding ` set (infoBindings si))"
proof (induction sis arbitrary: rm)
  case Nil
  then show ?case by simp
next
  case (Cons si sis)
  have "fst ` set (assignNames reserved 0 (sort_key (\<lambda>info. - references info) (infoBindings si)))
        = set (infoBindings si)" for reserved
    using assignNames_map_fst [of reserved 0 "sort_key (\<lambda>info. - references info) (infoBindings si)"]
    by (metis set_map set_sort)
  then show ?case by (simp add: Let_def Cons.IH fold_update_keys) blast
qed

lemma assignScopes_values:
  "snd ` set (assignScopes bindings sis rm) \<subseteq> snd ` set rm \<union> range indexToName"
proof (induction sis arbitrary: rm)
  case Nil
  then show ?case by simp
next
  case (Cons si sis)
  let ?named = "assignNames (getReservedNamesForScope bindings (infoScope si) rm) 0
                  (sort_key (\<lambda>info. - references info) (infoBindings si))"
  let ?rm = "fold (\<lambda>(info, newName) m. AList.update (binding info) newName m) ?named rm"
  have "snd ` set ?rm \<subseteq> snd ` set rm \<union> range indexToName"
    using fold_update_values [of ?named rm] assignNames_generated [of _ 0] by blast
  with Cons.IH [of ?rm] show ?case by (simp add: Let_def) blast
qed

lemma scopeInfos_bindings:
  "(\<Union>si\<in>set (scopeInfos bindings scopes). binding ` set (infoBindings si))
   = {b. \<exists>s\<in>set scopes. \<exists>name. (name, b) \<in> set (bindings (uid s)) \<and>
                                   uid (bindingScope b) = uid s}"
proof -
  have one: "(\<Union>si\<in>set_option (scopeInfoOf bindings s). binding ` set (infoBindings si))
        = {b. \<exists>name. (name, b) \<in> set (bindings (uid s)) \<and> uid (bindingScope b) = uid s}" for s
    by (auto simp: scopeInfoOf_def Let_def image_iff filter_empty_conv split: if_splits)
  have "set (scopeInfos bindings scopes) = (\<Union>s\<in>set scopes. set_option (scopeInfoOf bindings s))"
    by (force simp: scopeInfos_def List.map_filter_def image_iff)
  then show ?thesis using one by auto
qed

lemma decimal_last: "decimal i \<noteq> [] \<and> last (decimal i) = char_of (48 + i mod 10)"
  by (subst (1 2) decimal.simps) simp

lemma digit_not_in_CHARS: "char_of (48 + (d::nat) mod 10) \<notin> set CHARS"
proof
  let ?c = "char_of (48 + d mod 10) :: char"
  assume "?c \<in> set CHARS"
  then have st: "is_identifier_start ?c" using CHARS_start by (simp add: list_all_iff)
  have "(48 + d mod 10) mod 256 = 48 + d mod 10"
    by (rule mod_less) (simp add: less_le_trans [OF mod_less_divisor [of 10 d]])
  then have code: "(of_char ?c :: nat) = 48 + d mod 10" by simp
  have lt: "d mod 10 < 10" by simp
  from st consider "97 \<le> (of_char ?c :: nat)" | "65 \<le> (of_char ?c :: nat)"
    | "?c = CHR ''_''" | "?c = CHR ''$''"
    unfolding is_identifier_start_def Let_def by blast
  then show False
  proof cases
    case 1
    then show False using lt unfolding code by simp
  next
    case 2
    then show False using lt unfolding code by simp
  next
    case 3
    then have "(of_char ?c :: nat) = 95" by simp
    then show False using lt unfolding code by simp
  next
    case 4
    then have "(of_char ?c :: nat) = 36" by simp
    then show False unfolding code by simp
  qed
qed

lemma placeholder_not_generated:
  assumes "p = literalPlaceholder i \<or> p = globalPlaceholder i"
  shows "startsWith p ''__niu_'' \<and> p \<notin> range indexToName"
proof -
  have "last (decimal i) \<in> set (decimal i)" using decimal_last [of i] last_in_set by blast
  then have "last (decimal i) \<in> set p"
    using assms by (auto simp: literalPlaceholder_def globalPlaceholder_def)
  then have "\<not> set p \<subseteq> set CHARS" using digit_not_in_CHARS [of i] decimal_last [of i] by auto
  then have "p \<notin> range indexToName" by (simp add: indexToName_range)
  moreover have "startsWith p ''__niu_''"
    using assms by (auto simp: literalPlaceholder_def globalPlaceholder_def startsWith_def)
  ultimately show ?thesis by simp
qed

text \<open>
  Claim C4, as amended.  If a placeholder of the hoisting passes (\<open>__niu_literal_i__\<close>
  or \<open>__niu_global_i__\<close>) is the name of the declaring identifier of a binding that
  \<open>mangleIdentifiers\<close> collects, and that identifier is not renamed on behalf of another
  binding, then no identifier of the resulting AST has that placeholder name: the
  occurrences among the binding's references are renamed with it and the final batch
  pass sweeps every remaining one.
\<close>

theorem hoisting_placeholders_renamed_away:
  assumes scope: "s \<in> set scopes"
    and bound: "(name, b) \<in> set (bindings (uid s))" "uid (bindingScope b) = uid s"
    and node: "bindingIdentifier b < length ast" "ast ! bindingIdentifier b = p"
    and placeholder: "p = literalPlaceholder i \<or> p = globalPlaceholder i"
    and own: "\<forall>s'\<in>set scopes. \<forall>(name', b')\<in>set (bindings (uid s')).
                b' \<noteq> b \<longrightarrow> bindingIdentifier b \<notin> renamedNodes b'"
  shows "p \<notin> set (fst (mangleIdentifiers bindings scopes ast))"
proof -
  define rm where "rm = assignScopes bindings (scopeInfos bindings scopes) []"
  obtain ast' pr where ap: "applyRenames rm ast [] = (ast', pr)" by (cases "applyRenames rm ast []")
  have keys: "fst ` set rm = {b. \<exists>s\<in>set scopes. \<exists>name. (name, b) \<in> set (bindings (uid s)) \<and>
                                   uid (bindingScope b) = uid s}"
    unfolding rm_def assignScopes_keys scopeInfos_bindings by simp
  from scope bound have "b \<in> fst ` set rm" unfolding keys by blast
  then obtain n where n: "(b, n) \<in> set rm" by auto
  have wf: "\<forall>(b', n')\<in>set rm. b' \<noteq> b \<longrightarrow> bindingIdentifier b \<notin> renamedNodes b'"
  proof (intro ballI, clarify)
    fix b' n' assume "(b', n') \<in> set rm" "b' \<noteq> b" "bindingIdentifier b \<in> renamedNodes b'"
    from this(1) have "b' \<in> fst ` set rm" by force
    then obtain s' name' where "s' \<in> set scopes" "(name', b') \<in> set (bindings (uid s'))"
      unfolding keys by blast
    with own \<open>b' \<noteq> b\<close> have "bindingIdentifier b \<notin> renamedNodes b'" by blast
    with \<open>bindingIdentifier b \<in> renamedNodes b'\<close> show False by simp
  qed
  from placeholder_not_generated [OF placeholder]
  have st: "startsWith p ''__niu_''" and ng: "p \<notin> range indexToName" by simp_all
  have "ast ! bindingIdentifier b \<in> fst ` set (snd (applyRenames rm ast []))"
    using n wf node st by (intro applyRenames_records_placeholder) simp_all
  then have dom: "p \<in> fst ` set pr" by (simp add: ap node)
  have "snd ` set pr \<subseteq> snd ` set rm"
    using applyRenames_values [of rm ast "[]"] by (simp add: ap)
  also have "\<dots> \<subseteq> range indexToName"
    unfolding rm_def using assignScopes_values [of bindings "scopeInfos bindings scopes" "[]"]
    by simp
  finally have "p \<notin> snd ` set pr" using ng by blast
  with dom have "p \<notin> set (batchRename pr ast')" by (rule batchRename_sweeps)
  then show ?thesis
    by (simp add: mangleIdentifiers_def rm_def [symmetric] ap Let_def)
qed

lemmas mangle_defs = mangleIdentifiers_def scopeInfos_def scopeInfoOf_def List.map_filter_def
  getReservedNamesForScope_def reserveBinding_def isInsideScope_def nextName.simps
  indexToName_def charAt_def CHARS_def RESERVED_WORDS_def applyBinding_def renameReference_def
  renameViolation_def nameOf_def startsWith_def batchRename_def Let_def programScope_def

text \<open>The declaration and both uses of \<open>__niu_global_0__\<close> become \<open>e\<close>, the last
  one in the batch pass; the free \<open>localStorage\<close> stays.\<close>

theorem hoisting_placeholders_witness:
  "fst (mangleIdentifiers hoistedTable [programScope] hoistedAst)
     = [''e'', ''localStorage'', ''e'', ''e''] \<and>
   globalPlaceholder 0 \<notin> set (fst (mangleIdentifiers hoistedTable [programScope] hoistedAst))"
proof -
  have a: "fst (mangleIdentifiers hoistedTable [programScope] hoistedAst)
     = [''e'', ''localStorage'', ''e'', ''e'']"
    by (simp add: mangle_defs hoistedTable_def hoistedBinding_def hoistedAst_def)
  have p: "globalPlaceholder 0 = ''__niu_global_0__''"
    by (simp add: globalPlaceholder_def decimal.simps char_of_zero_digit)
  have b: "globalPlaceholder 0 \<notin> set (fst (mangleIdentifiers hoistedTable [programScope] hoistedAst))"
    by (rule hoisting_placeholders_renamed_away
             [where s = programScope and name = "''__niu_global_0__''" and b = hoistedBinding
                and i = 0])
       (simp_all add: p hoistedTable_def programScope_def hoistedBinding_def hoistedAst_def)
  from a b show ?thesis by simp
qed

text \<open>
  The claim as stated fails for a program that itself spells an identifier with
  \<open>__niu_\<close>: the free identifier \<open>__niu_x\<close> is no binding, so nothing renames it and it
  is an identifier of the output.
\<close>

theorem free_placeholder_counterexample:
  "fst (mangleIdentifiers noBindings [programScope] [''__niu_x'']) = [''__niu_x''] \<and>
   startsWith ''__niu_x'' ''__niu_''"
  by (simp add: mangle_defs noBindings_def)

end
